theory Spec2Isabelle
  imports Complex_Main "HOL-Library.Word" "HOL-Library.Signed_Division" "HOL-Library.Monad_Syntax"
begin

section \<open>The SDL sound driver of iortcw (code/sdl/sdl\_snd.c)\<close>

text \<open>
  A shallow embedding of \<^verbatim>\<open>src/MP/code/sdl/sdl_snd.c\<close>. The file-level variables of the
  C unit become the fields of one record that every operation takes and returns. C's
  \<^verbatim>\<open>int\<close> is modelled by \<open>int\<close>; an operation whose mathematical result does not fit in 32
  bits is undefined behaviour in C and is the value \<open>None\<close> here, as is a read or a write
  outside an allocated block, a division by zero and the use of a stream handle that is
  not open. C's \<^verbatim>\<open>/\<close> and \<^verbatim>\<open>%\<close> truncate towards zero: they are \<open>sdiv\<close> and \<open>smod\<close>.
\<close>

unbundle bit_operations_syntax

subsection \<open>Data\<close>

type_synonym byte = "8 word"

text \<open>\<^verbatim>\<open>dma_t\<close> (client/snd\_local.h), the fields this unit uses. A null \<^verbatim>\<open>buffer\<close> is \<open>None\<close>; an
  allocated one is the list of its bytes, whose length is the size of the block.\<close>

record dma_t =
  channels :: int
  samples :: int
  fullsamples :: int
  submission_chunk :: int
  samplebits :: int
  isfloat :: int
  speed :: int
  buffer :: "byte list option"

text \<open>The five configuration variables registered together at the first initialisation,
  each read as the \<^verbatim>\<open>int\<close> its value converts to.\<close>

record snd_cvars =
  s_sdlBits :: int
  s_sdlSpeed :: int
  s_sdlChannels :: int
  s_sdlDevSamps :: int
  s_sdlMixSamps :: int

text \<open>What the audio library keeps: the reference count of its audio subsystem and the open
  streams, by handle. Handles are never reused.\<close>

record SDL_AudioSpec =
  format :: "32 word"
  spec_channels :: int
  freq :: int

record sdl_stream =
  requested :: SDL_AudioSpec
  paused :: bool
  gain :: real

record sdl_lib =
  audio_refs :: nat
  next_stream :: nat
  streams :: "(nat \<times> sdl_stream) list"

datatype log_arg = ArgInt int | ArgStr string

datatype log_line = Printf string "log_arg list" | DPrintf string "log_arg list"

record snd_state =
  snd_inited :: bool
  cvars :: "snd_cvars option"
  s_sdlCapture :: "int option"
  dmapos :: int
  dmasize :: int
  sdlPlaybackStream :: "nat option"
  sdlPlaybackDevice :: nat
  sdlCaptureStream :: "nat option"
  sdlCaptureDevice :: nat
  sdlMasterGain :: real
  dma :: dma_t
  sdl :: sdl_lib
  console :: "log_line list"

subsection \<open>C integers\<close>

definition int_ok :: "int \<Rightarrow> bool" where
  "int_ok x \<longleftrightarrow> - 2147483648 \<le> x \<and> x \<le> 2147483647"

definition c_int :: "int \<Rightarrow> int option" where
  "c_int x = (if int_ok x then Some x else None)"

subsection \<open>The playback callback\<close>

text \<open>\<^verbatim>\<open>SNDDMA_QueueSilence\<close>: the bytes put on the stream, in chunks of at most 4096 bytes of the
  static, never written array \<^verbatim>\<open>silence\<close>.\<close>

function SNDDMA_QueueSilence :: "int \<Rightarrow> byte list" where
  "SNDDMA_QueueSilence len =
     (if len > 0 then
        (let chunk = (if len > 4096 then 4096 else len)
         in replicate (nat chunk) 0 @ SNDDMA_QueueSilence (len - chunk))
      else [])"
  by pat_completeness auto
termination
  by (relation "measure nat") auto

text \<open>Reading \<open>n\<close> bytes at \<^verbatim>\<open>dma.buffer + pos\<close>.\<close>

definition buffer_read :: "byte list option \<Rightarrow> int \<Rightarrow> int \<Rightarrow> byte list option" where
  "buffer_read buf pos n =
     (case buf of
        None \<Rightarrow> None
      | Some b \<Rightarrow>
          if 0 \<le> pos \<and> 0 \<le> n \<and> pos + n \<le> int (length b)
          then Some (take (nat n) (drop (nat pos) b)) else None)"

text \<open>One pass through the body of the \<^verbatim>\<open>while\<close> loop of the callback.\<close>

datatype drained = Break snd_state | Copied snd_state int "byte list"

definition drain_body :: "int \<Rightarrow> snd_state \<Rightarrow> int \<Rightarrow> drained option" where
  "drain_body bytesPerSample s len =
     (case c_int (dmapos s * bytesPerSample) of
        None \<Rightarrow> None
      | Some pos0 \<Rightarrow>
          (let s1 = (if pos0 \<ge> dmasize s then s\<lparr>dmapos := 0\<rparr> else s);
               pos = (if pos0 \<ge> dmasize s then 0 else pos0)
           in case c_int (dmasize s1 - pos) of
                None \<Rightarrow> None
              | Some avail \<Rightarrow>
                  (let len1 = (if avail > len then len else avail)
                   in if len1 \<le> 0 then Some (Break s1)
                      else
                        (case buffer_read (buffer (dma s1)) pos len1 of
                           None \<Rightarrow> None
                         | Some bytes \<Rightarrow>
                             (case c_int (dmapos s1 + len1 sdiv bytesPerSample) of
                                None \<Rightarrow> None
                              | Some p \<Rightarrow> Some (Copied (s1\<lparr>dmapos := p\<rparr>) len1 bytes))))))"

text \<open>The loop: the state, the length still owed and the bytes put on the stream so far.\<close>

function drain :: "int \<Rightarrow> snd_state \<Rightarrow> int \<Rightarrow> byte list \<Rightarrow> (snd_state \<times> int \<times> byte list) option" where
  "drain bytesPerSample s len out =
     (if len > 0 then
        (case drain_body bytesPerSample s len of
           None \<Rightarrow> None
         | Some (Break s1) \<Rightarrow> Some (s1, len, out)
         | Some (Copied s1 len1 bytes) \<Rightarrow>
             drain bytesPerSample s1 (len - len1) (out @ bytes))
      else Some (s, len, out))"
  by pat_completeness auto
termination
  by (relation "measure (\<lambda>(b, s, len, out). nat len)")
    (auto simp: drain_body_def Let_def split: option.splits if_splits)

text \<open>\<^verbatim>\<open>SNDDMA_AudioCallback\<close>: the new state and the bytes put on \<^verbatim>\<open>stream\<close>, in order.\<close>

definition SNDDMA_AudioCallback :: "snd_state \<Rightarrow> int \<Rightarrow> int \<Rightarrow> (snd_state \<times> byte list) option" where
  "SNDDMA_AudioCallback s additional_amount total_amount =
     (let len = (if additional_amount > 0 then additional_amount else total_amount);
          bytesPerSample = samplebits (dma s) sdiv 8
      in if len \<le> 0 then Some (s, [])
         else if \<not> snd_inited s \<or> buffer (dma s) = None \<or> dmasize s \<le> 0 \<or> bytesPerSample \<le> 0
         then Some (s, SNDDMA_QueueSilence len)
         else
           (case drain bytesPerSample s len [] of
              None \<Rightarrow> None
            | Some (s1, len', out) \<Rightarrow>
                (let out' = (if len' > 0 then out @ SNDDMA_QueueSilence len' else out)
                 in case c_int (dmapos s1 * bytesPerSample) of
                      None \<Rightarrow> None
                    | Some pos \<Rightarrow>
                        Some (if pos \<ge> dmasize s1 then s1\<lparr>dmapos := 0\<rparr> else s1, out'))))"

definition SNDDMA_GetDMAPos :: "snd_state \<Rightarrow> int" where
  "SNDDMA_GetDMAPos s = dmapos s"

subsection \<open>The audio library and the console\<close>

text \<open>The calls of the audio library that change what it keeps. \<^verbatim>\<open>SDL_Init\<close> and
  \<^verbatim>\<open>SDL_QuitSubSystem\<close> count references, and the count does not go below zero. A new stream
  gets the next handle and starts paused, at unit gain.\<close>

definition SDL_Init :: "bool \<Rightarrow> sdl_lib \<Rightarrow> sdl_lib" where
  "SDL_Init ok l = (if ok then l\<lparr>audio_refs := Suc (audio_refs l)\<rparr> else l)"

definition SDL_QuitSubSystem :: "sdl_lib \<Rightarrow> sdl_lib" where
  "SDL_QuitSubSystem l = l\<lparr>audio_refs := audio_refs l - 1\<rparr>"

definition SDL_OpenAudioDeviceStream :: "bool \<Rightarrow> SDL_AudioSpec \<Rightarrow> sdl_lib \<Rightarrow> sdl_lib \<times> nat option" where
  "SDL_OpenAudioDeviceStream ok spec l =
     (if ok then
        (l\<lparr>next_stream := Suc (next_stream l),
           streams := (next_stream l, \<lparr>requested = spec, paused = True, gain = 1\<rparr>) # streams l\<rparr>,
         Some (next_stream l))
      else (l, None))"

definition SDL_DestroyAudioStream :: "nat \<Rightarrow> sdl_lib \<Rightarrow> sdl_lib option" where
  "SDL_DestroyAudioStream h l =
     (case map_of (streams l) h of
        None \<Rightarrow> None
      | Some st \<Rightarrow> Some (l\<lparr>streams := filter (\<lambda>e. fst e \<noteq> h) (streams l)\<rparr>))"

definition with_stream :: "nat \<Rightarrow> (sdl_stream \<Rightarrow> sdl_stream) \<Rightarrow> sdl_lib \<Rightarrow> sdl_lib option" where
  "with_stream h f l =
     (case map_of (streams l) h of
        None \<Rightarrow> None
      | Some st \<Rightarrow>
          Some (l\<lparr>streams := map (\<lambda>e. if fst e = h then (fst e, f (snd e)) else e) (streams l)\<rparr>))"

definition SDL_PauseAudioStreamDevice :: "nat \<Rightarrow> sdl_lib \<Rightarrow> sdl_lib option" where
  "SDL_PauseAudioStreamDevice h = with_stream h (\<lambda>st. st\<lparr>paused := True\<rparr>)"

definition SDL_ResumeAudioStreamDevice :: "nat \<Rightarrow> sdl_lib \<Rightarrow> sdl_lib option" where
  "SDL_ResumeAudioStreamDevice h = with_stream h (\<lambda>st. st\<lparr>paused := False\<rparr>)"

definition SDL_SetAudioStreamGain :: "nat \<Rightarrow> real \<Rightarrow> sdl_lib \<Rightarrow> sdl_lib option" where
  "SDL_SetAudioStreamGain h g = with_stream h (\<lambda>st. st\<lparr>gain := g\<rparr>)"

definition SDL_AUDIO_BITSIZE :: "32 word \<Rightarrow> int" where
  "SDL_AUDIO_BITSIZE x = uint (x AND 0xFF)"

definition SDL_AUDIO_ISFLOAT :: "32 word \<Rightarrow> int" where
  "SDL_AUDIO_ISFLOAT x = uint (x AND 0x100)"

definition AUDIO_U8 :: "32 word" where "AUDIO_U8 = 0x0008"
definition AUDIO_S8 :: "32 word" where "AUDIO_S8 = 0x8008"
definition AUDIO_S16LSB :: "32 word" where "AUDIO_S16LSB = 0x8010"
definition AUDIO_S16MSB :: "32 word" where "AUDIO_S16MSB = 0x9010"
definition AUDIO_S32LSB :: "32 word" where "AUDIO_S32LSB = 0x8020"
definition AUDIO_S32MSB :: "32 word" where "AUDIO_S32MSB = 0x9020"
definition AUDIO_F32LSB :: "32 word" where "AUDIO_F32LSB = 0x8120"
definition AUDIO_F32MSB :: "32 word" where "AUDIO_F32MSB = 0x9120"

text \<open>The native 16-bit format, on a little-endian machine.\<close>

definition AUDIO_S16SYS :: "32 word" where "AUDIO_S16SYS = AUDIO_S16LSB"

definition Com_Printf :: "string \<Rightarrow> log_arg list \<Rightarrow> snd_state \<Rightarrow> snd_state" where
  "Com_Printf fmt args s = s\<lparr>console := console s @ [Printf fmt args]\<rparr>"

definition Com_DPrintf :: "string \<Rightarrow> log_arg list \<Rightarrow> snd_state \<Rightarrow> snd_state" where
  "Com_DPrintf fmt args s = s\<lparr>console := console s @ [DPrintf fmt args]\<rparr>"

definition formatToStringTable :: "(32 word \<times> string) list" where
  "formatToStringTable =
     [(AUDIO_U8, ''AUDIO_U8''), (AUDIO_S8, ''AUDIO_S8''),
      (AUDIO_S16LSB, ''AUDIO_S16LSB''), (AUDIO_S16MSB, ''AUDIO_S16MSB''),
      (AUDIO_S32LSB, ''AUDIO_S32LSB''), (AUDIO_S32MSB, ''AUDIO_S32MSB''),
      (AUDIO_F32LSB, ''AUDIO_F32LSB''), (AUDIO_F32MSB, ''AUDIO_F32MSB'')]"

definition SNDDMA_PrintAudiospec :: "string \<Rightarrow> SDL_AudioSpec \<Rightarrow> int \<Rightarrow> snd_state \<Rightarrow> snd_state" where
  "SNDDMA_PrintAudiospec str spec sampleFrames s =
     (let s1 = Com_Printf ''%s:\<newline>'' [ArgStr str] s;
          fmt = foldl (\<lambda>fmt e. if format spec = fst e then Some (snd e) else fmt) None formatToStringTable;
          s2 = (case fmt of
                  Some f \<Rightarrow> Com_Printf ''  Format:   %s\<newline>'' [ArgStr f] s1
                | None \<Rightarrow> Com_Printf ''  Format:   ^1UNKNOWN\<newline>'' [] s1);
          s3 = Com_Printf ''  Freq:     %d\<newline>'' [ArgInt (freq spec)] s2;
          s4 = Com_Printf ''  Channels: %d\<newline>'' [ArgInt (spec_channels spec)] s3
      in if sampleFrames > 0 then Com_Printf ''  Frames:   %d\<newline>'' [ArgInt sampleFrames] s4 else s4)"

subsection \<open>Initialisation\<close>

text \<open>What one call of \<^verbatim>\<open>SNDDMA_Init\<close> gets from outside this unit: the values of the
  configuration variables (\<^verbatim>\<open>env_useMumble\<close> is false when the build has no Mumble support),
  and the answers of the audio library and of \<^verbatim>\<open>calloc\<close>.\<close>

record sdl_env =
  env_cvars :: snd_cvars
  env_capture :: int
  env_useMumble :: bool
  env_init_ok :: bool
  env_version :: int
  env_driver :: string
  env_error :: string
  env_open_playback :: bool
  env_playback_device :: nat
  env_format_ok :: bool
  env_obtained :: SDL_AudioSpec
  env_obtainedSamples :: int
  env_calloc_ok :: bool
  env_open_capture :: bool
  env_capture_device :: nat

text \<open>The number of samples of the ring buffer (lines 252 to 259 of the source): from the value
  of \<^verbatim>\<open>s_sdlMixSamps\<close>, the frames of the device buffer and the channels obtained.\<close>

definition mix_samples :: "int \<Rightarrow> int \<Rightarrow> int \<Rightarrow> int option" where
  "mix_samples mixSamps obtainedSamples obtained_channels =
     do {
       tmp1 \<leftarrow> (if mixSamps = 0
                then do { x \<leftarrow> c_int (obtainedSamples * obtained_channels); c_int (x * 10) }
                else Some mixSamps);
       tmp2 \<leftarrow> (if tmp1 \<le> 0 then c_int (obtained_channels * 2048) else Some tmp1);
       if obtained_channels = 0 then None
       else c_int (tmp2 - tmp2 smod obtained_channels)
     }"

definition calloc :: "bool \<Rightarrow> int \<Rightarrow> byte list option" where
  "calloc ok n = (if ok \<and> 0 \<le> n then Some (replicate (nat n) 0) else None)"

definition desired_spec :: "snd_cvars \<Rightarrow> SDL_AudioSpec" where
  "desired_spec c =
     (let tmp = (if s_sdlBits c \<noteq> 16 \<and> s_sdlBits c \<noteq> 8 then 16 else s_sdlBits c)
      in \<lparr>format = (if tmp = 16 then AUDIO_S16SYS else AUDIO_U8),
          spec_channels = s_sdlChannels c,
          freq = (if s_sdlSpeed c = 0 then 22050 else s_sdlSpeed c)\<rparr>)"

text \<open>The part of \<^verbatim>\<open>SNDDMA_Init\<close> after the ring buffer is allocated: the capture stream, the
  gain, and the start of the playback stream \<open>h\<close>.\<close>

definition init_capture :: "sdl_env \<Rightarrow> snd_state \<Rightarrow> snd_state option" where
  "init_capture env s =
     (let s1 = s\<lparr>s_sdlCapture := Some (env_capture env)\<rparr>
      in if env_capture env = 0
         then Some (Com_Printf (''SDL audio capture support disabled by user ('' @ [CHR 0x27] @
                            ''+set s_sdlCapture 1'' @ [CHR 0x27] @ '' to enable)\<newline>'') [] s1)
         else if env_useMumble env
         then Some (Com_Printf ''SDL audio capture support disabled for Mumble support\<newline>'' [] s1)
         else
           (let spec = \<lparr>format = AUDIO_S16SYS, spec_channels = 1, freq = 48000\<rparr>;
                (l, stream) = SDL_OpenAudioDeviceStream (env_open_capture env) spec (sdl s1);
                s2 = s1\<lparr>sdl := l, sdlCaptureStream := stream\<rparr>
            in case stream of
                 None \<Rightarrow> Some (Com_Printf ''SDL capture device %s.\<newline>'' [ArgStr ''failed to open''] s2)
               | Some c \<Rightarrow>
                   do {
                     l' \<leftarrow> SDL_PauseAudioStreamDevice c (sdl s2);
                     Some (Com_Printf ''SDL capture device %s.\<newline>'' [ArgStr ''opened'']
                             (s2\<lparr>sdlCaptureDevice := env_capture_device env, sdl := l'\<rparr>))
                   }))"

definition init_start :: "snd_state \<Rightarrow> (snd_state \<times> bool) option" where
  "init_start s =
     do {
       let s1 = s\<lparr>sdlMasterGain := 1\<rparr>;
       s2 \<leftarrow> (case sdlPlaybackStream s1 of
                None \<Rightarrow> Some s1
              | Some h \<Rightarrow> do { l \<leftarrow> SDL_SetAudioStreamGain h (sdlMasterGain s1) (sdl s1); Some (s1\<lparr>sdl := l\<rparr>) });
       let s3 = Com_Printf ''Starting SDL audio callback...\<newline>'' [] s2;
       l \<leftarrow> (case sdlPlaybackStream s3 of
               None \<Rightarrow> None
             | Some h \<Rightarrow> SDL_ResumeAudioStreamDevice h (sdl s3));
       let s4 = Com_Printf ''SDL audio initialized.\<newline>'' [] (s3\<lparr>sdl := l\<rparr>);
       Some (s4\<lparr>snd_inited := True\<rparr>, True)
     }"

text \<open>The failure exit shared by the two late failures: the stream \<open>h\<close> is destroyed, the
  handles are reset and the audio subsystem is released.\<close>

definition init_unwind :: "nat \<Rightarrow> snd_state \<Rightarrow> (snd_state \<times> bool) option" where
  "init_unwind h s =
     do {
       l \<leftarrow> SDL_DestroyAudioStream h (sdl s);
       Some (s\<lparr>sdlPlaybackStream := None, sdlPlaybackDevice := 0, sdl := SDL_QuitSubSystem l\<rparr>, False)
     }"

definition SNDDMA_Init :: "sdl_env \<Rightarrow> snd_state \<Rightarrow> (snd_state \<times> bool) option" where
  "SNDDMA_Init env s0 =
     (if snd_inited s0 then Some (s0, True)
      else
        (let c = (case cvars s0 of None \<Rightarrow> env_cvars env | Some c \<Rightarrow> c);
             s1 = Com_DPrintf ''SDL_Init( SDL_INIT_AUDIO )... '' [] (s0\<lparr>cvars := Some c\<rparr>)
         in if \<not> env_init_ok env
            then Some (Com_Printf ''SDL_Init( SDL_INIT_AUDIO ) FAILED (%s)\<newline>'' [ArgStr (env_error env)] s1, False)
            else
              (let s2 = Com_DPrintf ''OK\<newline>'' [] (s1\<lparr>sdl := SDL_Init True (sdl s1)\<rparr>);
                   linked = env_version env;
                   s3 = Com_Printf ''SDL version %d.%d.%d\<newline>''
                          [ArgInt (linked sdiv 1000000), ArgInt ((linked sdiv 1000) smod 1000),
                           ArgInt (linked smod 1000)] s2;
                   s4 = Com_Printf (''SDL audio driver is '' @ [CHR 0x22] @ ''%s'' @ [CHR 0x22] @ ''.\<newline>'')
                          [ArgStr (env_driver env)] s3;
                   (l, stream) = SDL_OpenAudioDeviceStream (env_open_playback env) (desired_spec c) (sdl s4);
                   s5 = s4\<lparr>sdl := l, sdlPlaybackStream := stream\<rparr>
               in case stream of
                    None \<Rightarrow>
                      Some ((Com_Printf ''SDL_OpenAudioDeviceStream() failed: %s\<newline>'' [ArgStr (env_error env)] s5)
                              \<lparr>sdl := SDL_QuitSubSystem (sdl s5)\<rparr>, False)
                  | Some h \<Rightarrow>
                      (let s6 = s5\<lparr>sdlPlaybackDevice := env_playback_device env\<rparr>
                       in if sdlPlaybackDevice s6 = 0 \<or> \<not> env_format_ok env
                          then init_unwind h
                                 (Com_Printf ''SDL_GetAudioDeviceFormat() failed: %s\<newline>'' [ArgStr (env_error env)] s6)
                          else
                            do {
                              let obtained = env_obtained env;
                              let s7 = SNDDMA_PrintAudiospec ''SDL_AudioSpec'' obtained (env_obtainedSamples env) s6;
                              tmp \<leftarrow> mix_samples (s_sdlMixSamps c) (env_obtainedSamples env) (spec_channels obtained);
                              let bits = SDL_AUDIO_BITSIZE (format obtained);
                              full \<leftarrow> c_int (tmp sdiv spec_channels obtained);
                              size \<leftarrow> c_int (tmp * (bits sdiv 8));
                              let s8 = s7\<lparr>dmapos := 0, dmasize := size,
                                          dma := (dma s7)\<lparr>samplebits := bits,
                                                           isfloat := SDL_AUDIO_ISFLOAT (format obtained),
                                                           channels := spec_channels obtained,
                                                           samples := tmp,
                                                           fullsamples := full,
                                                           submission_chunk := 1,
                                                           speed := freq obtained,
                                                           buffer := calloc (env_calloc_ok env) size\<rparr>\<rparr>;
                              if buffer (dma s8) = None
                              then init_unwind h (Com_Printf ''Failed to allocate DMA buffer\<newline>'' [] s8)
                              else do { s9 \<leftarrow> init_capture env s8; init_start s9 }
                            }))))"

subsection \<open>Shutdown\<close>

definition SNDDMA_Shutdown :: "snd_state \<Rightarrow> snd_state option" where
  "SNDDMA_Shutdown s =
     do {
       s1 \<leftarrow> (case sdlPlaybackStream s of
                None \<Rightarrow> Some s
              | Some h \<Rightarrow>
                  do {
                    let sa = Com_Printf ''Closing SDL audio playback device...\<newline>'' [] s;
                    l \<leftarrow> SDL_DestroyAudioStream h (sdl sa);
                    let sb = Com_Printf ''SDL audio playback device closed.\<newline>'' [] (sa\<lparr>sdl := l\<rparr>);
                    Some (sb\<lparr>sdlPlaybackStream := None, sdlPlaybackDevice := 0\<rparr>)
                  });
       s2 \<leftarrow> (case sdlCaptureStream s1 of
                None \<Rightarrow> Some s1
              | Some h \<Rightarrow>
                  do {
                    let sa = Com_Printf ''Closing SDL audio capture device...\<newline>'' [] s1;
                    l \<leftarrow> SDL_DestroyAudioStream h (sdl sa);
                    let sb = Com_Printf ''SDL audio capture device closed.\<newline>'' [] (sa\<lparr>sdl := l\<rparr>);
                    Some (sb\<lparr>sdlCaptureStream := None, sdlCaptureDevice := 0\<rparr>)
                  });
       let s3 = s2\<lparr>sdl := SDL_QuitSubSystem (sdl s2)\<rparr>;
       let s4 = s3\<lparr>dma := (dma s3)\<lparr>buffer := None\<rparr>\<rparr>;
       let s5 = s4\<lparr>dmapos := 0, dmasize := 0, snd_inited := False\<rparr>;
       Some (Com_Printf ''SDL audio shut down.\<newline>'' [] s5)
     }"

subsection \<open>Capture\<close>

text \<open>\<^verbatim>\<open>SDL_GetAudioStreamAvailable\<close> is its answer, the argument \<open>available\<close>.\<close>

definition SNDDMA_AvailableCaptureSamples :: "snd_state \<Rightarrow> int \<Rightarrow> snd_state \<times> int" where
  "SNDDMA_AvailableCaptureSamples s available =
     (case sdlCaptureStream s of
        Some h \<Rightarrow> (let bytes = available in (s, if bytes > 0 then bytes sdiv 2 else 0))
      | None \<Rightarrow> (s, 0))"

text \<open>\<^verbatim>\<open>SDL_GetAudioStreamData\<close> on a stream that holds the bytes \<open>queued\<close>: the count it returns
  (\<open>-1\<close> when it fails, as it does for a negative length), the bytes it stores at the start
  of the caller's block, and the bytes left in the stream.\<close>

definition SDL_GetAudioStreamData :: "bool \<Rightarrow> byte list \<Rightarrow> int \<Rightarrow> int \<times> byte list \<times> byte list" where
  "SDL_GetAudioStreamData fails queued len =
     (if fails \<or> len < 0 then (- 1, [], queued)
      else (min len (int (length queued)), take (nat len) queued, drop (nat len) queued))"

text \<open>Writing into a block: \<open>store\<close> puts the bytes \<open>xs\<close> at offset \<open>off\<close>, \<open>SDL_memset\<close> puts \<open>n\<close>
  copies of \<open>v\<close> there.\<close>

definition store :: "byte list \<Rightarrow> int \<Rightarrow> byte list \<Rightarrow> byte list option" where
  "store d off xs =
     (if 0 \<le> off \<and> off + int (length xs) \<le> int (length d)
      then Some (take (nat off) d @ xs @ drop (nat off + length xs) d) else None)"

definition SDL_memset :: "byte list \<Rightarrow> int \<Rightarrow> byte \<Rightarrow> int \<Rightarrow> byte list option" where
  "SDL_memset d off v n = (if 0 \<le> n then store d off (replicate (nat n) v) else None)"

text \<open>\<^verbatim>\<open>SNDDMA_Capture\<close>: \<open>nsamples\<close> is the parameter \<^verbatim>\<open>samples\<close> and \<open>data\<close> the caller's block; the
  result is the block afterwards and what is left in the capture stream.\<close>

definition SNDDMA_Capture :: "snd_state \<Rightarrow> bool \<Rightarrow> byte list \<Rightarrow> int \<Rightarrow> byte list \<Rightarrow> (byte list \<times> byte list) option" where
  "SNDDMA_Capture s fails queued nsamples data =
     (case sdlCaptureStream s of
        Some h \<Rightarrow>
          do {
            bytes \<leftarrow> c_int (nsamples * 2);
            let (got0, chunk, rest) = SDL_GetAudioStreamData fails queued bytes;
            data1 \<leftarrow> store data 0 chunk;
            let got = (if got0 < 0 then 0 else got0);
            data2 \<leftarrow> (if got < bytes then SDL_memset data1 got 0 (bytes - got) else Some data1);
            Some (data2, rest)
          }
      | None \<Rightarrow>
          do {
            bytes \<leftarrow> c_int (nsamples * 2);
            data1 \<leftarrow> SDL_memset data 0 0 bytes;
            Some (data1, queued)
          })"

subsection \<open>States\<close>

text \<open>The state at program start: every file-level variable is zero.\<close>

definition initial_state :: snd_state where
  "initial_state =
     \<lparr>snd_inited = False, cvars = None, s_sdlCapture = None, dmapos = 0, dmasize = 0,
      sdlPlaybackStream = None, sdlPlaybackDevice = 0,
      sdlCaptureStream = None, sdlCaptureDevice = 0, sdlMasterGain = 1,
      dma = \<lparr>channels = 0, samples = 0, fullsamples = 0, submission_chunk = 0,
             samplebits = 0, isfloat = 0, speed = 0, buffer = None\<rparr>,
      sdl = \<lparr>audio_refs = 0, next_stream = 1, streams = []\<rparr>,
      console = []\<rparr>"

text \<open>The handles this unit holds are open streams, and they are two streams.\<close>

definition handles_ok :: "snd_state \<Rightarrow> bool" where
  "handles_ok s \<longleftrightarrow>
     (case sdlPlaybackStream s of None \<Rightarrow> True | Some h \<Rightarrow> map_of (streams (sdl s)) h \<noteq> None) \<and>
     (case sdlCaptureStream s of None \<Rightarrow> True | Some h \<Rightarrow> map_of (streams (sdl s)) h \<noteq> None) \<and>
     (sdlPlaybackStream s = None \<or> sdlPlaybackStream s \<noteq> sdlCaptureStream s)"

text \<open>The states on which the callback has defined behaviour, whatever the cursor is beyond
  that: an allocated block has \<^verbatim>\<open>dmasize\<close> bytes, the cursor is not negative and its byte
  offset is an \<^verbatim>\<open>int\<close>. A cursor at or past the end of the block is allowed.\<close>

definition ring_ok :: "snd_state \<Rightarrow> bool" where
  "ring_ok s \<longleftrightarrow>
     (case buffer (dma s) of
        None \<Rightarrow> True
      | Some b \<Rightarrow>
          int (length b) = dmasize s \<and> int_ok (dmasize s) \<and>
          0 \<le> dmapos s \<and> int_ok (dmapos s * (samplebits (dma s) sdiv 8)))"

text \<open>The invariant of the loop of the callback on the block \<open>b\<close>, for samples of \<open>bps\<close> bytes.\<close>

definition ring_inv :: "int \<Rightarrow> byte list \<Rightarrow> snd_state \<Rightarrow> bool" where
  "ring_inv bps b s \<longleftrightarrow>
     buffer (dma s) = Some b \<and> int (length b) = dmasize s \<and> int_ok (dmasize s) \<and>
     0 < dmasize s \<and> 0 < bps \<and> 0 \<le> dmapos s \<and> dmapos s * bps \<le> dmasize s"

text \<open>Reading a ring: the \<open>n\<close> bytes of \<open>b\<close> from offset \<open>start\<close> on, going back to the first byte
  after the last.\<close>

definition ring_bytes :: "'a list \<Rightarrow> nat \<Rightarrow> nat \<Rightarrow> 'a list" where
  "ring_bytes b start n = map (\<lambda>k. b ! ((start + k) mod length b)) [0..<n]"

text \<open>The condition of the callback's silent exit.\<close>

definition degraded :: "snd_state \<Rightarrow> bool" where
  "degraded s \<longleftrightarrow>
     \<not> snd_inited s \<or> buffer (dma s) = None \<or> dmasize s \<le> 0 \<or> samplebits (dma s) sdiv 8 \<le> 0"

text \<open>A state in which the callback plays the block \<open>b\<close> of samples of \<open>bits\<close> bits, cursor at 0.\<close>

definition playing :: "byte list \<Rightarrow> int \<Rightarrow> snd_state" where
  "playing b bits =
     initial_state\<lparr>snd_inited := True, dmasize := int (length b),
       dma := (dma initial_state)\<lparr>samplebits := bits, channels := 1,
                samples := int (length b) sdiv (bits sdiv 8),
                fullsamples := int (length b) sdiv (bits sdiv 8),
                buffer := Some b\<rparr>\<rparr>"

text \<open>The callback plays from a ring buffer as \<^verbatim>\<open>SNDDMA_Init\<close> sizes it: the system is
  initialised, the block is allocated and consistent, and its size is that of
  \<^verbatim>\<open>dma.samples\<close> whole samples.\<close>

definition ring_ready :: "snd_state \<Rightarrow> bool" where
  "ring_ready s \<longleftrightarrow>
     \<not> degraded s \<and> ring_ok s \<and> dmasize s = samples (dma s) * (samplebits (dma s) sdiv 8)"

text \<open>Between two invocations the mixer, which is not part of this unit, writes samples into the
  ring: the block keeps its size and gets the contents \<open>b\<close>.\<close>

definition mixer_paint :: "byte list \<Rightarrow> snd_state \<Rightarrow> snd_state" where
  "mixer_paint b s =
     (case buffer (dma s) of
        None \<Rightarrow> s
      | Some old \<Rightarrow> if length b = length old then s\<lparr>dma := (dma s)\<lparr>buffer := Some b\<rparr>\<rparr> else s)"

text \<open>A sequence of invocations. A request is the contents of the ring at the invocation and
  the length asked for; the result lists, for each invocation, the state it leaves and the
  bytes it puts on the stream.\<close>

fun callback_seq :: "snd_state \<Rightarrow> (byte list \<times> int) list \<Rightarrow> (snd_state \<times> byte list) list option" where
  "callback_seq s [] = Some []"
| "callback_seq s ((b, len) # reqs) =
     (case SNDDMA_AudioCallback (mixer_paint b s) len len of
        None \<Rightarrow> None
      | Some (s', out) \<Rightarrow>
          (case callback_seq s' reqs of
             None \<Rightarrow> None
           | Some rs \<Rightarrow> Some ((s', out) # rs)))"


text \<open>Passes over the ring, in the words of the specification: the bytes emitted are numbered
  from \<open>off\<close> on, and byte number \<open>k\<close> is the byte at offset \<open>k mod N\<close> of the ring as it is at
  the invocation that emits it.\<close>

fun ring_passes :: "nat \<Rightarrow> (byte list \<times> int) list \<Rightarrow> byte list" where
  "ring_passes off [] = []"
| "ring_passes off ((b, len) # reqs) = ring_bytes b off (nat len) @ ring_passes (off + nat len) reqs"




section \<open>Properties\<close>

subsection \<open>Silence\<close>

lemma SNDDMA_QueueSilence_replicate: "SNDDMA_QueueSilence len = replicate (nat len) 0"
proof (induction len rule: SNDDMA_QueueSilence.induct)
  case (1 len)
  show ?case
  proof (cases "len > 0")
    case False
    then show ?thesis by simp
  next
    case True
    define chunk where "chunk = (if len > 4096 then 4096 else len)"
    have c: "0 < chunk" "chunk \<le> len" using True by (auto simp: chunk_def)
    have "SNDDMA_QueueSilence len = replicate (nat chunk) 0 @ SNDDMA_QueueSilence (len - chunk)"
      using True by (subst SNDDMA_QueueSilence.simps) (simp add: chunk_def Let_def)
    also have "SNDDMA_QueueSilence (len - chunk) = replicate (nat (len - chunk)) 0"
      using "1.IH" [OF True chunk_def] .
    also have "replicate (nat chunk) (0::byte) @ replicate (nat (len - chunk)) 0 = replicate (nat len) 0"
      using c by (simp add: replicate_add [symmetric] nat_add_distrib [symmetric])
    finally show ?thesis .
  qed
qed

subsection \<open>The loop of the callback\<close>

lemma sdiv_nonneg: "0 \<le> a \<Longrightarrow> 0 < b \<Longrightarrow> (a::int) sdiv b = a div b"
  by (cases "a = 0") (simp_all add: signed_divide_int_def)

lemma drain_body_ok:
  assumes inv: "ring_inv bps b s" and len: "0 < len"
  defines "p0 \<equiv> (if dmasize s \<le> dmapos s * bps then 0 else dmapos s)"
  defines "len1 \<equiv> min (dmasize s - p0 * bps) len"
  shows "drain_body bps s len =
           Some (Copied (s\<lparr>dmapos := p0 + len1 div bps\<rparr>) len1 (take (nat len1) (drop (nat (p0 * bps)) b)))"
    and "0 < len1" and "len1 \<le> len" and "p0 * bps + len1 \<le> dmasize s" and "0 \<le> p0" and "p0 * bps < dmasize s"
    and "ring_inv bps b (s\<lparr>dmapos := p0 + len1 div bps\<rparr>)"
proof -
  from inv have b: "buffer (dma s) = Some b" and lb: "int (length b) = dmasize s"
    and ok: "int_ok (dmasize s)" and sz: "0 < dmasize s" and bps: "0 < bps"
    and p: "0 \<le> dmapos s" and pb: "dmapos s * bps \<le> dmasize s"
    by (simp_all add: ring_inv_def)
  have p0: "0 \<le> p0" using p by (simp add: p0_def)
  have pos: "0 \<le> p0 * bps" using p0 bps by simp
  show lt: "p0 * bps < dmasize s" using sz pb by (auto simp: p0_def)
  show l1: "0 < len1" using lt len by (simp add: len1_def)
  show l2: "len1 \<le> len" by (simp add: len1_def)
  show l3: "p0 * bps + len1 \<le> dmasize s" by (simp add: len1_def)
  show "0 \<le> p0" by fact
  have d: "0 \<le> len1 div bps" using l1 bps by (simp add: pos_imp_zdiv_nonneg_iff)
  have "bps * (len1 div bps) \<le> len1"
    using bps mult_div_mod_eq [of bps len1] pos_mod_sign [of bps len1] by linarith
  then have q: "(p0 + len1 div bps) * bps \<le> dmasize s" using l3 by (simp add: algebra_simps)
  have "p0 + len1 div bps \<le> (p0 + len1 div bps) * bps"
    using p0 d bps by (simp add: mult_le_cancel_left1)
  then have q2: "p0 + len1 div bps \<le> dmasize s" using q by linarith
  have "0 \<le> dmapos s * bps" using p bps by simp
  then have i1: "int_ok (dmapos s * bps)" using ok pb by (simp add: int_ok_def)
  have i2: "int_ok (dmasize s - p0 * bps)" using ok pos lt by (simp add: int_ok_def)
  have i3: "int_ok (p0 + len1 div bps)" using ok q2 p0 d by (simp add: int_ok_def)
  show "ring_inv bps b (s\<lparr>dmapos := p0 + len1 div bps\<rparr>)"
    using inv q p0 d by (simp add: ring_inv_def)
  show "drain_body bps s len =
           Some (Copied (s\<lparr>dmapos := p0 + len1 div bps\<rparr>) len1 (take (nat len1) (drop (nat (p0 * bps)) b)))"
  proof (cases "dmasize s \<le> dmapos s * bps")
    case True
    then have z: "p0 = 0" by (simp add: p0_def)
    have i3': "int_ok (len1 div bps)" using i3 z by simp
    have l3': "len1 \<le> dmasize s" using l3 z by simp
    have m: "len1 = (if len < dmasize s then len else dmasize s)" by (simp add: len1_def z min_def)
    show ?thesis
      using True i1 i2 i3' l1 l3' bps b lb ok
      by (simp add: drain_body_def c_int_def Let_def buffer_read_def sdiv_nonneg z m [symmetric])
  next
    case False
    then have z: "p0 = dmapos s" by (simp add: p0_def)
    have m: "len1 = (if len < dmasize s - dmapos s * bps then len else dmasize s - dmapos s * bps)"
      by (simp add: len1_def z min_def)
    show ?thesis
      using False i1 i2 i3 l1 l3 bps b lb ok pos
      by (simp add: drain_body_def c_int_def Let_def buffer_read_def sdiv_nonneg z m [symmetric])
  qed
qed

declare drain.simps [simp del] SNDDMA_QueueSilence.simps [simp del]

lemma set_dmapos_same: "s\<lparr>dmapos := dmapos s\<rparr> = (s::snd_state)"
  by simp

lemma drain_length:
  "ring_inv bps b s \<Longrightarrow> 0 \<le> len \<Longrightarrow>
   \<exists>p out'. drain bps s len out = Some (s\<lparr>dmapos := p\<rparr>, 0, out') \<and>
     length out' = length out + nat len \<and> ring_inv bps b (s\<lparr>dmapos := p\<rparr>)"
proof (induction bps s len out rule: drain.induct)
  case (1 bps s len out)
  show ?case
  proof (cases "0 < len")
    case False
    with "1.prems" have "drain bps s len out = Some (s\<lparr>dmapos := dmapos s\<rparr>, 0, out)"
      by (subst drain.simps) simp
    moreover have "nat len = 0" using False by simp
    moreover have "s\<lparr>dmapos := dmapos s\<rparr> = s" by simp
    ultimately show ?thesis using "1.prems"(1) by (intro exI [of _ "dmapos s"] exI [of _ out]) simp
  next
    case True
    define p0 where "p0 = (if dmasize s \<le> dmapos s * bps then 0 else dmapos s)"
    define len1 where "len1 = min (dmasize s - p0 * bps) len"
    define s1 where "s1 = s\<lparr>dmapos := p0 + len1 div bps\<rparr>"
    define bytes where "bytes = take (nat len1) (drop (nat (p0 * bps)) b)"
    note B = drain_body_ok [OF "1.prems"(1) True, folded p0_def, folded len1_def, folded s1_def bytes_def]
    have lb: "int (length b) = dmasize s" using "1.prems"(1) by (simp add: ring_inv_def)
    have "0 \<le> p0 * bps" using B(5) "1.prems"(1) by (simp add: ring_inv_def)
    then have nb: "length bytes = nat len1" using B(2,4) lb by (simp add: bytes_def)
    have "0 \<le> len - len1" using B(3) by simp
    from "1.IH" [OF True B(1) refl B(7) this]
    obtain p out' where d: "drain bps s1 (len - len1) (out @ bytes) = Some (s1\<lparr>dmapos := p\<rparr>, 0, out')"
      and l: "length out' = length (out @ bytes) + nat (len - len1)"
      and r: "ring_inv bps b (s1\<lparr>dmapos := p\<rparr>)" by blast
    have e: "s1\<lparr>dmapos := p\<rparr> = s\<lparr>dmapos := p\<rparr>" by (simp add: s1_def)
    have "drain bps s len out = Some (s\<lparr>dmapos := p\<rparr>, 0, out')"
      using True B(1) d e by (subst drain.simps) simp
    moreover have "length out' = length out + nat len" using l nb B(2,3) by simp
    ultimately show ?thesis using r e by (intro exI [of _ p] exI [of _ out']) simp
  qed
qed

lemma ring_bytes_add: "ring_bytes b st (n + m) = ring_bytes b st n @ ring_bytes b (st + n) m"
proof -
  have "[0..<n + m] = [0..<n] @ [n..<n + m]"
    by (rule upt_add_eq_append) simp
  also have "[n..<n + m] = map (\<lambda>i. i + n) [0..<m]"
    by (simp add: map_add_upt add.commute)
  finally have "[0..<n + m] = [0..<n] @ map (\<lambda>i. i + n) [0..<m]" .
  then have "ring_bytes b st (n + m) =
      map (\<lambda>k. b ! ((st + k) mod length b)) [0..<n] @
      map (\<lambda>k. b ! ((st + (k + n)) mod length b)) [0..<m]"
    by (simp add: ring_bytes_def o_def)
  also have "(\<lambda>k. b ! ((st + (k + n)) mod length b)) = (\<lambda>k. b ! ((st + n + k) mod length b))"
    by (simp add: ac_simps)
  finally show ?thesis by (simp add: ring_bytes_def)
qed

lemma ring_bytes_mod: "ring_bytes b (st mod length b) n = ring_bytes b st n"
  by (simp add: ring_bytes_def mod_add_left_eq)

lemma ring_bytes_take: "st + n \<le> length b \<Longrightarrow> ring_bytes b st n = take n (drop st b)"
  by (rule nth_equalityI) (simp_all add: ring_bytes_def)

lemma length_ring_bytes: "length (ring_bytes b st n) = n"
  by (simp add: ring_bytes_def)

lemma div_diff_mult: "b \<noteq> 0 \<Longrightarrow> (a - k * b) div b = a div b - (k::int)"
proof -
  assume "b \<noteq> 0"
  then have "(a + (- k) * b) div b = - k + a div b" by (rule div_mult_self1)
  then show ?thesis by simp
qed

lemma drain_ring:
  "ring_inv bps b s \<Longrightarrow> dmasize s = S * bps \<Longrightarrow> 0 \<le> len \<Longrightarrow>
   \<exists>p. drain bps s len out =
         Some (s\<lparr>dmapos := p\<rparr>, 0, out @ ring_bytes b (nat (dmapos s * bps)) (nat len)) \<and>
       0 \<le> p \<and> p \<le> S \<and> p mod S = (dmapos s + len div bps) mod S"
proof (induction bps s len out rule: drain.induct)
  case (1 bps s len out)
  from "1.prems"(1) have bps: "0 < bps" and lb: "int (length b) = dmasize s"
    and p: "0 \<le> dmapos s" and pb: "dmapos s * bps \<le> dmasize s" and sz: "0 < dmasize s"
    by (simp_all add: ring_inv_def)
  have S: "0 < S" using sz bps "1.prems"(2) by (simp add: zero_less_mult_iff)
  have pS: "dmapos s \<le> S" using pb bps "1.prems"(2) by simp
  show ?case
  proof (cases "0 < len")
    case False
    then have z: "len = 0" using "1.prems" by simp
    have "drain bps s len out = Some (s\<lparr>dmapos := dmapos s\<rparr>, 0, out)"
      using False z by (subst drain.simps) simp
    then show ?thesis using z p pS by (intro exI [of _ "dmapos s"]) (simp add: ring_bytes_def)
  next
    case True
    define p0 where "p0 = (if dmasize s \<le> dmapos s * bps then 0 else dmapos s)"
    define len1 where "len1 = min (dmasize s - p0 * bps) len"
    define s1 where "s1 = s\<lparr>dmapos := p0 + len1 div bps\<rparr>"
    define bytes where "bytes = take (nat len1) (drop (nat (p0 * bps)) b)"
    note B = drain_body_ok [OF "1.prems"(1) True, folded p0_def, folded len1_def, folded s1_def bytes_def]
    have p0S: "p0 mod S = dmapos s mod S"
      using pS bps "1.prems"(2) by (auto simp: p0_def)
    have pos: "0 \<le> p0 * bps" using B(5) bps by simp
    have st: "nat (p0 * bps) = nat (dmapos s * bps) mod length b"
    proof (cases "dmasize s \<le> dmapos s * bps")
      case True
      then have "dmapos s * bps = int (length b)" using pb lb by simp
      then show ?thesis using True by (simp add: p0_def)
    next
      case False
      moreover have "0 \<le> dmapos s * bps" using p bps by simp
      ultimately have "nat (dmapos s * bps) < length b" using lb by (simp add: nat_less_iff)
      then show ?thesis using False by (simp add: p0_def)
    qed
    have byt: "bytes = ring_bytes b (nat (p0 * bps)) (nat len1)"
      unfolding bytes_def
      by (rule ring_bytes_take [symmetric]) (use B(2,4) pos lb in linarith)
    show ?thesis
    proof (cases "len1 = len")
      case True
      have "drain bps s1 (len - len1) (out @ bytes) = Some (s1, 0, out @ bytes)"
        using True by (subst drain.simps) simp
      then have d: "drain bps s len out = Some (s1, 0, out @ bytes)"
        using \<open>0 < len\<close> B(1) by (subst drain.simps) simp
      have r: "ring_bytes b (nat (dmapos s * bps)) (nat len) = bytes"
        using True by (simp add: byt st ring_bytes_mod)
      have q: "(p0 + len div bps) * bps \<le> S * bps"
        using B(7) True "1.prems"(2) by (simp add: ring_inv_def s1_def)
      then have q1: "p0 + len div bps \<le> S" using bps by simp
      have q0: "0 \<le> p0 + len div bps" using B(7) True by (simp add: ring_inv_def s1_def)
      have "(p0 + len div bps) mod S = (dmapos s + len div bps) mod S"
        using p0S by (metis mod_add_left_eq)
      then show ?thesis using d r q0 q1 True
        by (intro exI [of _ "p0 + len div bps"]) (simp add: s1_def)
    next
      case False
      then have lt: "len1 < len" using B(3) by simp
      then have l1: "len1 = (S - p0) * bps"
        using "1.prems"(2) by (simp add: len1_def min_def algebra_simps split: if_splits)
      then have dv: "len1 div bps = S - p0" using bps by simp
      have s1S: "dmapos s1 = S" by (simp add: s1_def dv)
      have ds: "dmasize s1 = S * bps" using "1.prems"(2) by (simp add: s1_def)
      have "0 \<le> len - len1" using lt by simp
      from "1.IH" [OF True B(1) refl B(7) ds this]
      obtain q where d: "drain bps s1 (len - len1) (out @ bytes) =
            Some (s1\<lparr>dmapos := q\<rparr>, 0, (out @ bytes) @ ring_bytes b (nat (dmapos s1 * bps)) (nat (len - len1)))"
        and q: "0 \<le> q" "q \<le> S" "q mod S = (dmapos s1 + (len - len1) div bps) mod S"
        by blast
      have e: "s1\<lparr>dmapos := q\<rparr> = s\<lparr>dmapos := q\<rparr>" by (simp add: s1_def)
      have d': "drain bps s len out =
            Some (s\<lparr>dmapos := q\<rparr>, 0, (out @ bytes) @ ring_bytes b (nat (dmapos s1 * bps)) (nat (len - len1)))"
        using True B(1) d e by (subst drain.simps) simp
      have n: "nat (dmapos s1 * bps) = nat (p0 * bps) + nat len1"
        using s1S l1 pos B(2) by (simp add: nat_add_distrib [symmetric] algebra_simps)
      have "ring_bytes b (nat (dmapos s * bps)) (nat len) = ring_bytes b (nat (p0 * bps)) (nat len1 + nat (len - len1))"
        using B(2) lt by (simp add: st ring_bytes_mod nat_add_distrib [symmetric])
      also have "\<dots> = bytes @ ring_bytes b (nat (dmapos s1 * bps)) (nat (len - len1))"
        by (simp add: ring_bytes_add byt n)
      finally have r: "ring_bytes b (nat (dmapos s * bps)) (nat len) =
          bytes @ ring_bytes b (nat (dmapos s1 * bps)) (nat (len - len1))" .
      have "(len - len1) div bps = len div bps - (S - p0)"
        using bps by (simp add: l1 div_diff_mult)
      then have "dmapos s1 + (len - len1) div bps = p0 + len div bps"
        by (simp add: s1S)
      then have "(dmapos s1 + (len - len1) div bps) mod S = (p0 + len div bps) mod S"
        by simp
      also have "\<dots> = (dmapos s + len div bps) mod S"
        using p0S by (metis mod_add_left_eq)
      finally have "q mod S = (dmapos s + len div bps) mod S" using q(3) by simp
      then show ?thesis using d' r q(1,2) by (intro exI [of _ q]) simp
    qed
  qed
qed

subsection \<open>One invocation of the callback\<close>

lemma callback_ring:
  assumes inv: "ring_inv bps b s" and bps: "bps = samplebits (dma s) sdiv 8"
    and ini: "snd_inited s" and len: "0 < (if 0 < a then a else t)"
  shows "\<exists>p out. SNDDMA_AudioCallback s a t = Some (s\<lparr>dmapos := p\<rparr>, out) \<and>
           length out = nat (if 0 < a then a else t) \<and> 0 \<le> p \<and> p * bps < dmasize s \<and>
           ring_inv bps b (s\<lparr>dmapos := p\<rparr>)"
proof -
  define len where "len = (if 0 < a then a else t)"
  have l0: "0 \<le> len" "0 < len" using len by (simp_all add: len_def)
  from drain_length [OF inv l0(1), of "[]"]
  obtain p out where d: "drain bps s len [] = Some (s\<lparr>dmapos := p\<rparr>, 0, out)"
    and lo: "length out = nat len" and r: "ring_inv bps b (s\<lparr>dmapos := p\<rparr>)" by auto
  from r have p: "0 \<le> p" "p * bps \<le> dmasize s" "int_ok (dmasize s)" "0 < bps" "0 < dmasize s"
    by (simp_all add: ring_inv_def)
  have "0 \<le> p * bps" using p by simp
  then have i: "int_ok (p * bps)" using p unfolding int_ok_def by linarith
  from inv have nd: "buffer (dma s) = Some b" "0 < dmasize s" by (simp_all add: ring_inv_def)
  define q where "q = (if dmasize s \<le> p * bps then 0 else p)"
  have cb: "SNDDMA_AudioCallback s a t = Some (s\<lparr>dmapos := q\<rparr>, out)"
    using l0 d i nd ini p(4) bps
    by (simp add: SNDDMA_AudioCallback_def Let_def len_def [symmetric] c_int_def q_def)
  have "0 \<le> q" "q * bps < dmasize s" using p by (auto simp: q_def)
  moreover have "ring_inv bps b (s\<lparr>dmapos := q\<rparr>)"
    using r calculation by (simp add: ring_inv_def)
  ultimately show ?thesis using cb lo by (intro exI [of _ q] exI [of _ out]) (simp add: len_def)
qed

lemma callback_ring_aligned:
  assumes inv: "ring_inv bps b s" and bps: "bps = samplebits (dma s) sdiv 8"
    and ini: "snd_inited s" and len: "0 < (if 0 < a then a else t)"
    and al: "dmasize s = S * bps"
  shows "SNDDMA_AudioCallback s a t =
           Some (s\<lparr>dmapos := (dmapos s + (if 0 < a then a else t) div bps) mod S\<rparr>,
                 ring_bytes b (nat (dmapos s * bps)) (nat (if 0 < a then a else t)))"
proof -
  define len where "len = (if 0 < a then a else t)"
  have l0: "0 \<le> len" "0 < len" using len by (simp_all add: len_def)
  from drain_ring [OF inv al l0(1), of "[]"]
  obtain p where d: "drain bps s len [] = Some (s\<lparr>dmapos := p\<rparr>, 0, ring_bytes b (nat (dmapos s * bps)) (nat len))"
    and p: "0 \<le> p" "p \<le> S" "p mod S = (dmapos s + len div bps) mod S" by auto
  from inv have r: "int_ok (dmasize s)" "0 < bps" "0 < dmasize s" "buffer (dma s) = Some b"
    by (simp_all add: ring_inv_def)
  have pb: "p * bps \<le> dmasize s" using p r al by simp
  have "0 \<le> p * bps" using p r by simp
  then have i: "int_ok (p * bps)" using pb r unfolding int_ok_def by linarith
  have q: "(if dmasize s \<le> p * bps then 0 else p) = (dmapos s + len div bps) mod S"
  proof (cases "dmasize s \<le> p * bps")
    case True
    then have "p = S" using pb al r by simp
    then show ?thesis using True p(3) by simp
  next
    case False
    then have "p < S" using al r by simp
    then show ?thesis using False p by simp
  qed
  show ?thesis
    using l0 d i r ini bps q [symmetric]
    by (simp add: SNDDMA_AudioCallback_def Let_def len_def [symmetric] c_int_def)
qed

lemma callback_silence:
  assumes "0 < (if 0 < a then a else t)"
    and "\<not> snd_inited s \<or> buffer (dma s) = None \<or> dmasize s \<le> 0 \<or> samplebits (dma s) sdiv 8 \<le> 0"
  shows "SNDDMA_AudioCallback s a t = Some (s, replicate (nat (if 0 < a then a else t)) 0)"
  using assms by (auto simp: SNDDMA_AudioCallback_def Let_def SNDDMA_QueueSilence_replicate)

lemma dmapos_twice: "s1 = s\<lparr>dmapos := x\<rparr> \<Longrightarrow> s1\<lparr>dmapos := y\<rparr> = s\<lparr>dmapos := y\<rparr>"
  by simp

lemma drain_frame:
  "drain bps s len out = Some (s', len', out') \<Longrightarrow> s' = s\<lparr>dmapos := dmapos s'\<rparr>"
proof (induction bps s len out rule: drain.induct)
  case (1 bps s len out)
  show ?case
  proof (cases "0 < len")
    case False
    then show ?thesis using "1.prems" by (subst (asm) drain.simps) auto
  next
    case True
    show ?thesis
    proof (cases "drain_body bps s len")
      case None
      then show ?thesis using True "1.prems" by (subst (asm) drain.simps) simp
    next
      case (Some d)
      show ?thesis
      proof (cases d)
        case (Break s1)
        then have "s1 = s \<or> s1 = s\<lparr>dmapos := 0\<rparr>"
          using Some by (auto simp: drain_body_def Let_def split: option.splits if_splits)
        moreover have "s' = s1" using True Some Break "1.prems" by (subst (asm) drain.simps) simp
        ultimately show ?thesis by auto
      next
        case (Copied s1 len1 bytes)
        then have e: "s1 = s\<lparr>dmapos := dmapos s1\<rparr>"
          using Some by (auto simp: drain_body_def Let_def split: option.splits if_splits)
        have "drain bps s1 (len - len1) (out @ bytes) = Some (s', len', out')"
          using True Some Copied "1.prems" by (subst (asm) drain.simps) simp
        from "1.IH" [OF True Some Copied this] have "s' = s1\<lparr>dmapos := dmapos s'\<rparr>" .
        then show ?thesis using dmapos_twice [OF e] by simp
      qed
    qed
  qed
qed

lemma callback_frame:
  assumes "SNDDMA_AudioCallback s a t = Some (s', out)"
  shows "s' = s\<lparr>dmapos := dmapos s'\<rparr>"
proof (cases "(if 0 < a then a else t) \<le> 0 \<or> degraded s")
  case True
  then have "s' = s" using assms
    by (auto simp: SNDDMA_AudioCallback_def Let_def degraded_def split: if_splits)
  then show ?thesis by simp
next
  case False
  then obtain s1 len' out1 where
    d: "drain (samplebits (dma s) sdiv 8) s (if 0 < a then a else t) [] = Some (s1, len', out1)"
    and s': "s' = s1 \<or> s' = s1\<lparr>dmapos := 0\<rparr>"
    using assms
    by (auto simp: SNDDMA_AudioCallback_def Let_def degraded_def split: if_splits option.splits)
  from drain_frame [OF d] have "s1 = s\<lparr>dmapos := dmapos s1\<rparr>" .
  from dmapos_twice [OF this] have "s1\<lparr>dmapos := 0\<rparr> = s\<lparr>dmapos := 0\<rparr>" .
  then show ?thesis using s' \<open>s1 = s\<lparr>dmapos := dmapos s1\<rparr>\<close> by auto
qed

lemma drain_body_reset:
  assumes "dmasize s \<le> dmapos s * bps" and "int_ok (dmapos s * bps)"
  shows "drain_body bps s len = drain_body bps (s\<lparr>dmapos := 0\<rparr>) len"
proof (cases "dmasize s \<le> 0")
  case True
  then show ?thesis using assms by (simp add: drain_body_def c_int_def int_ok_def Let_def)
next
  case False
  then show ?thesis using assms by (simp add: drain_body_def c_int_def int_ok_def Let_def)
qed

lemma drain_reset:
  assumes "0 < len" and "dmasize s \<le> dmapos s * bps" and "int_ok (dmapos s * bps)"
  shows "drain bps s len out = drain bps (s\<lparr>dmapos := 0\<rparr>) len out"
  using assms(1) drain_body_reset [OF assms(2,3), of len]
  by (simp add: drain.simps [of bps s len out] drain.simps [of bps "s\<lparr>dmapos := 0\<rparr>" len out])

lemma callback_reset:
  assumes "0 < (if 0 < a then a else t)" and "\<not> degraded s"
    and "dmasize s \<le> dmapos s * (samplebits (dma s) sdiv 8)"
    and "int_ok (dmapos s * (samplebits (dma s) sdiv 8))"
  shows "SNDDMA_AudioCallback s a t = SNDDMA_AudioCallback (s\<lparr>dmapos := 0\<rparr>) a t"
proof -
  from assms(2) obtain b where "buffer (dma s) = Some b" "snd_inited s" "0 < dmasize s"
    "0 < samplebits (dma s) sdiv 8" by (auto simp: degraded_def)
  then show ?thesis
    using assms(1) drain_reset [OF assms(1,3,4), of "[]"]
    by (simp add: SNDDMA_AudioCallback_def Let_def)
qed







section \<open>The claims about the playback callback\<close>

text \<open>
  C4. For every requested length \<open>len > 0\<close>, the callback invoked when the system is not
  initialised, or the buffer is not allocated, or the size of the buffer is not positive, or
  the width of a sample in bytes is not positive, puts exactly \<open>len\<close> zero bytes on the stream
  and returns, leaving the state as it was.
\<close>

theorem C4_silence_degradation:
  assumes "0 < (if 0 < additional_amount then additional_amount else total_amount)"
    and "\<not> snd_inited s \<or> buffer (dma s) = None \<or> dmasize s \<le> 0 \<or> samplebits (dma s) sdiv 8 \<le> 0"
  shows "SNDDMA_AudioCallback s additional_amount total_amount =
           Some (s, replicate (nat (if 0 < additional_amount then additional_amount else total_amount)) 0)"
  using assms by (rule callback_silence)

theorem C4_silence_degradation_witness:
  "0 < (if 0 < (3::int) then 3 else (0::int)) \<and> \<not> snd_inited initial_state \<and>
   SNDDMA_AudioCallback initial_state 3 0 = Some (initial_state, [0, 0, 0])"
  using C4_silence_degradation [of 3 0 initial_state]
  by (simp add: initial_state_def numeral_3_eq_3)




text \<open>
  C9. Whenever the callback returns, the state it leaves differs from the state it found in the
  cursor \<^verbatim>\<open>dmapos\<close> at most: the ring buffer and the other fields of \<^verbatim>\<open>dma\<close>, the size, the
  handles, the gain, the configuration variables and what the audio library keeps are as
  before, and nothing is added to the console.
\<close>

theorem C9_callback_frame:
  assumes "SNDDMA_AudioCallback s additional_amount total_amount = Some (s', out)"
  shows "s' = s\<lparr>dmapos := dmapos s'\<rparr> \<and> dma s' = dma s \<and> dmasize s' = dmasize s \<and>
         snd_inited s' = snd_inited s \<and> cvars s' = cvars s \<and> s_sdlCapture s' = s_sdlCapture s \<and>
         sdlPlaybackStream s' = sdlPlaybackStream s \<and> sdlPlaybackDevice s' = sdlPlaybackDevice s \<and>
         sdlCaptureStream s' = sdlCaptureStream s \<and> sdlCaptureDevice s' = sdlCaptureDevice s \<and>
         sdlMasterGain s' = sdlMasterGain s \<and> sdl s' = sdl s \<and> console s' = console s"
proof -
  from callback_frame [OF assms] have e: "s' = s\<lparr>dmapos := dmapos s'\<rparr>" .
  then obtain p where p: "s' = s\<lparr>dmapos := p\<rparr>" ..
  show ?thesis unfolding p by simp
qed

theorem C9_callback_frame_witness:
  "SNDDMA_AudioCallback (playing [1, 2, 3, 4] 16) 2 0 =
     Some ((playing [1, 2, 3, 4] 16)\<lparr>dmapos := 1\<rparr>, [1, 2]) \<and>
   console ((playing [1, 2, 3, 4] 16)\<lparr>dmapos := 1\<rparr>) = console (playing [1, 2, 3, 4] 16) \<and>
   dma ((playing [1, 2, 3, 4] 16)\<lparr>dmapos := 1\<rparr>) = dma (playing [1, 2, 3, 4] 16)"
proof -
  have e: "SNDDMA_AudioCallback (playing [1, 2, 3, 4] 16) 2 0 =
             Some ((playing [1, 2, 3, 4] 16)\<lparr>dmapos := 1\<rparr>, [1, 2])"
    by code_simp
  from C9_callback_frame [OF e] show ?thesis using e by simp
qed

section \<open>Sequences of invocations\<close>

subsection \<open>Lemmas\<close>

lemma callback_aligned_any:
  assumes nd: "\<not> degraded s" and ok: "ring_ok s" and b: "buffer (dma s) = Some b"
    and bps: "bps = samplebits (dma s) sdiv 8" and al: "dmasize s = S * bps"
    and len: "0 < len"
    and p0: "p0 = (if dmasize s \<le> dmapos s * bps then 0 else dmapos s)"
  shows "SNDDMA_AudioCallback s len len =
           Some (s\<lparr>dmapos := (p0 + len div bps) mod S\<rparr>, ring_bytes b (nat (p0 * bps)) (nat len))"
    and "0 < S" and "0 \<le> p0" and "p0 < S"
proof -
  from nd b have ini: "snd_inited s" and pos: "0 < dmasize s" "0 < bps"
    by (auto simp: degraded_def bps)
  from ok b have k: "int (length b) = dmasize s" "int_ok (dmasize s)" "0 \<le> dmapos s"
    "int_ok (dmapos s * bps)" by (simp_all add: ring_ok_def bps)
  show S: "0 < S" using pos al by (simp add: zero_less_mult_iff)
  show p00: "0 \<le> p0" using k(3) by (simp add: p0)
  show "p0 < S" using S pos al by (auto simp: p0)
  define s0 where "s0 = s\<lparr>dmapos := p0\<rparr>"
  have l: "0 < (if 0 < len then len else len)" using len by simp
  have same: "SNDDMA_AudioCallback s len len = SNDDMA_AudioCallback s0 len len"
  proof (cases "dmasize s \<le> dmapos s * bps")
    case True
    then show ?thesis using callback_reset [OF l nd] k(4) by (simp add: s0_def p0 bps)
  next
    case False
    then show ?thesis by (simp add: s0_def p0)
  qed
  have inv: "ring_inv bps b s0" using b k pos p00 by (auto simp: ring_inv_def s0_def p0)
  have bps0: "bps = samplebits (dma s0) sdiv 8" by (simp add: s0_def bps)
  have ini0: "snd_inited s0" using ini by (simp add: s0_def)
  have al0: "dmasize s0 = S * bps" using al by (simp add: s0_def)
  from callback_ring_aligned [OF inv bps0 ini0 l al0]
  show "SNDDMA_AudioCallback s len len =
           Some (s\<lparr>dmapos := (p0 + len div bps) mod S\<rparr>, ring_bytes b (nat (p0 * bps)) (nat len))"
    using len by (simp add: same s0_def)
qed

text \<open>Any state on which the callback plays: the cursor it leaves.\<close>

lemma callback_any:
  assumes nd: "\<not> degraded s" and ok: "ring_ok s" and len: "0 < len"
  shows "\<exists>p out. SNDDMA_AudioCallback s len len = Some (s\<lparr>dmapos := p\<rparr>, out) \<and>
           0 \<le> p \<and> p * (samplebits (dma s) sdiv 8) < dmasize s"
proof -
  define bps where "bps = samplebits (dma s) sdiv 8"
  from nd obtain b where b: "buffer (dma s) = Some b" and ini: "snd_inited s"
    and pos: "0 < dmasize s" "0 < bps"
    by (auto simp: degraded_def bps_def)
  from ok b have k: "int (length b) = dmasize s" "int_ok (dmasize s)" "0 \<le> dmapos s"
    "int_ok (dmapos s * bps)" by (simp_all add: ring_ok_def bps_def)
  define s0 where "s0 = (if dmasize s \<le> dmapos s * bps then s\<lparr>dmapos := 0\<rparr> else s)"
  have l: "0 < (if 0 < len then len else len)" using len by simp
  have same: "SNDDMA_AudioCallback s len len = SNDDMA_AudioCallback s0 len len"
    using callback_reset [OF l nd] k(4) by (simp add: s0_def bps_def)
  have inv: "ring_inv bps b s0" using b k pos by (simp add: ring_inv_def s0_def)
  have bps0: "bps = samplebits (dma s0) sdiv 8" by (simp add: s0_def bps_def)
  have ini0: "snd_inited s0" using ini by (simp add: s0_def)
  from callback_ring [OF inv bps0 ini0 l]
  obtain p out where cb: "SNDDMA_AudioCallback s0 len len = Some (s0\<lparr>dmapos := p\<rparr>, out)"
    and p: "0 \<le> p" "p * bps < dmasize s0" by auto
  have e: "s0\<lparr>dmapos := p\<rparr> = s\<lparr>dmapos := p\<rparr>" by (simp add: s0_def)
  have "dmasize s0 = dmasize s" by (simp add: s0_def)
  then show ?thesis using cb p e same by (intro exI [of _ p] exI [of _ out]) (simp add: bps_def)
qed

lemma mixer_paint_same_size:
  assumes "buffer (dma s) = Some old" and "length b = length old"
  shows "mixer_paint b s = s\<lparr>dma := (dma s)\<lparr>buffer := Some b\<rparr>\<rparr>"
  using assms by (simp add: mixer_paint_def)

lemma playing_buffer:
  "\<not> degraded s \<Longrightarrow> ring_ok s \<Longrightarrow> \<exists>old. buffer (dma s) = Some old \<and> int (length old) = dmasize s"
  by (auto simp: degraded_def ring_ok_def)

lemma mixer_paint_playing:
  assumes nd: "\<not> degraded s" and ok: "ring_ok s" and lb: "int (length b) = dmasize s"
  shows "mixer_paint b s = s\<lparr>dma := (dma s)\<lparr>buffer := Some b\<rparr>\<rparr>"
    and "\<not> degraded (mixer_paint b s)" and "ring_ok (mixer_paint b s)"
proof -
  from playing_buffer [OF nd ok] obtain old where old: "buffer (dma s) = Some old"
    "int (length old) = dmasize s" by blast
  show mp: "mixer_paint b s = s\<lparr>dma := (dma s)\<lparr>buffer := Some b\<rparr>\<rparr>"
    using mixer_paint_same_size [OF old(1), of b] old(2) lb by simp
  show "\<not> degraded (mixer_paint b s)" using nd by (simp add: mp degraded_def)
  show "ring_ok (mixer_paint b s)" using ok old lb by (simp add: mp ring_ok_def)
qed

text \<open>One invocation after the mixer has painted the ring.\<close>

lemma callback_step_any:
  assumes nd: "\<not> degraded s" and ok: "ring_ok s" and lb: "int (length b) = dmasize s"
    and len: "0 < len"
  shows "\<exists>s1 out. SNDDMA_AudioCallback (mixer_paint b s) len len = Some (s1, out) \<and>
           \<not> degraded s1 \<and> ring_ok s1 \<and>
           0 \<le> dmapos s1 \<and> dmapos s1 * (samplebits (dma s1) sdiv 8) < dmasize s1 \<and>
           samples (dma s1) = samples (dma s) \<and> samplebits (dma s1) = samplebits (dma s) \<and>
           dmasize s1 = dmasize s"
proof -
  note M = mixer_paint_playing [OF nd ok lb]
  define s' where "s' = mixer_paint b s"
  have f: "samples (dma s') = samples (dma s)" "samplebits (dma s') = samplebits (dma s)"
    "dmasize s' = dmasize s" "buffer (dma s') = Some b" by (simp_all add: s'_def M(1))
  from callback_any [OF M(2,3) len]
  obtain p out where cb: "SNDDMA_AudioCallback s' len len = Some (s'\<lparr>dmapos := p\<rparr>, out)"
    and p: "0 \<le> p" "p * (samplebits (dma s') sdiv 8) < dmasize s'" by (auto simp: s'_def)
  have nd1: "\<not> degraded (s'\<lparr>dmapos := p\<rparr>)" using M(2) by (simp add: degraded_def s'_def)
  have io: "int_ok (dmasize s')" using M(3) f(4) by (simp add: ring_ok_def s'_def)
  from nd1 have bp: "0 < samplebits (dma s') sdiv 8" by (simp add: degraded_def)
  have "0 \<le> p * (samplebits (dma s') sdiv 8)" using p(1) bp by simp
  then have "int_ok (p * (samplebits (dma s') sdiv 8))"
    using p(2) io unfolding int_ok_def by linarith
  then have ok1: "ring_ok (s'\<lparr>dmapos := p\<rparr>)"
    using M(3) p(1) f(4) by (simp add: ring_ok_def s'_def [symmetric])
  show ?thesis
    using cb nd1 ok1 p f
    by (intro exI [of _ "s'\<lparr>dmapos := p\<rparr>"] exI [of _ out]) (simp add: s'_def [symmetric])
qed

lemma callback_step:
  assumes nd: "\<not> degraded s" and ok: "ring_ok s" and lb: "int (length b) = dmasize s"
    and len: "0 < len"
    and bps: "bps = samplebits (dma s) sdiv 8" and al: "dmasize s = S * bps"
    and p0: "p0 = (if S \<le> dmapos s then 0 else dmapos s)"
  shows "SNDDMA_AudioCallback (mixer_paint b s) len len =
           Some ((mixer_paint b s)\<lparr>dmapos := (p0 + len div bps) mod S\<rparr>,
                 ring_bytes b (nat (p0 * bps)) (nat len))"
proof -
  note M = mixer_paint_playing [OF nd ok lb]
  define s' where "s' = mixer_paint b s"
  have f: "samplebits (dma s') = samplebits (dma s)"
    "dmasize s' = dmasize s" "buffer (dma s') = Some b" "dmapos s' = dmapos s"
    by (simp_all add: s'_def M(1))
  from nd have bp: "0 < bps" by (simp add: degraded_def bps)
  have p0': "p0 = (if dmasize s' \<le> dmapos s' * bps then 0 else dmapos s')"
    using bp al by (simp add: p0 f)
  have bps': "bps = samplebits (dma s') sdiv 8" by (simp add: f bps)
  have al': "dmasize s' = S * bps" by (simp add: f al)
  from callback_aligned_any(1) [OF M(2,3) [folded s'_def] f(3) bps' al' len p0']
  show ?thesis by (simp add: s'_def)
qed



lemma callback_seq_bytes:
  assumes "\<not> degraded s" and "ring_ok s"
    and "\<forall>r\<in>set reqs. int (length (fst r)) = dmasize s \<and> 0 < snd r \<and>
           samplebits (dma s) sdiv 8 dvd snd r"
    and "samplebits (dma s) sdiv 8 dvd dmasize s"
    and "dmapos s * (samplebits (dma s) sdiv 8) = int off mod dmasize s"
  shows "\<exists>rs. callback_seq s reqs = Some rs \<and> concat (map snd rs) = ring_passes off reqs"
  using assms
proof (induction reqs arbitrary: s off)
  case Nil
  then show ?case by simp
next
  case (Cons r reqs)
  obtain b len where r: "r = (b, len)" by (cases r)
  define bps where "bps = samplebits (dma s) sdiv 8"
  from Cons.prems(4) obtain S where al: "dmasize s = S * bps"
    by (auto simp: dvd_def bps_def mult.commute)
  from Cons.prems(3) r have lb: "int (length b) = dmasize s" and len: "0 < len"
    and dv: "bps dvd len" by (simp_all add: bps_def)
  from Cons.prems(1) have bp: "0 < bps" and sz: "0 < dmasize s"
    by (auto simp: degraded_def bps_def)
  have "dmapos s * bps < S * bps" using Cons.prems(5) sz al by (simp add: bps_def [symmetric])
  then have lt: "dmapos s < S" using bp by simp
  then have p0: "dmapos s = (if S \<le> dmapos s then 0 else dmapos s)" by simp
  define s1 where "s1 = (mixer_paint b s)\<lparr>dmapos := (dmapos s + len div bps) mod S\<rparr>"
  from callback_step [OF Cons.prems(1,2) lb len bps_def al p0]
  have cb: "SNDDMA_AudioCallback (mixer_paint b s) len len =
               Some (s1, ring_bytes b (nat (dmapos s * bps)) (nat len))"
    by (simp add: s1_def)
  from callback_step_any [OF Cons.prems(1,2) lb len] cb
  have s1: "\<not> degraded s1" "ring_ok s1" "samplebits (dma s1) = samplebits (dma s)"
    "dmasize s1 = dmasize s" by auto
  have d1: "dmapos s1 = (dmapos s + len div bps) mod S" by (simp add: s1_def)
  have N: "length b = nat (dmasize s)" using lb by simp
  have "nat (dmapos s * bps) = off mod length b"
    using Cons.prems(5) sz by (simp add: bps_def [symmetric] N nat_mod_distrib)
  then have out: "ring_bytes b (nat (dmapos s * bps)) (nat len) = ring_bytes b off (nat len)"
    by (simp add: ring_bytes_mod)
  have "dmapos s1 * bps = ((dmapos s + len div bps) * bps) mod (S * bps)"
    by (simp add: d1 mult_mod_left)
  also have "(dmapos s + len div bps) * bps = dmapos s * bps + len"
    using dv by (simp add: algebra_simps)
  also have "(dmapos s * bps + len) mod (S * bps) = (int off + len) mod dmasize s"
    using Cons.prems(5) by (simp add: bps_def [symmetric] al mod_add_left_eq)
  also have "int off + len = int (off + nat len)" using len by simp
  finally have nx: "dmapos s1 * (samplebits (dma s1) sdiv 8) = int (off + nat len) mod dmasize s1"
    by (simp add: s1 bps_def)
  have rest: "\<forall>r\<in>set reqs. int (length (fst r)) = dmasize s1 \<and> 0 < snd r \<and>
           samplebits (dma s1) sdiv 8 dvd snd r"
    using Cons.prems(3) s1 by simp
  have dv1: "samplebits (dma s1) sdiv 8 dvd dmasize s1" using Cons.prems(4) s1 by simp
  from Cons.IH [OF s1(1,2) rest dv1 nx]
  obtain rs where rs: "callback_seq s1 reqs = Some rs"
    "concat (map snd rs) = ring_passes (off + nat len) reqs" by blast
  have "callback_seq s (r # reqs) = Some ((s1, ring_bytes b off (nat len)) # rs)"
    using cb rs(1) out by (simp add: r)
  then show ?case using rs(2) by (simp add: r)
qed

lemma ring_passes_same:
  "\<forall>r\<in>set reqs. fst r = b \<and> 0 \<le> snd r \<Longrightarrow>
   ring_passes off reqs = ring_bytes b off (nat (sum_list (map snd reqs)))"
proof (induction reqs arbitrary: off)
  case Nil
  then show ?case by (simp add: ring_bytes_def)
next
  case (Cons r reqs)
  obtain b' len where r: "r = (b', len)" by (cases r)
  have s: "0 \<le> sum_list (map snd reqs)" using Cons.prems by (intro sum_list_nonneg) auto
  show ?case using Cons s by (simp add: r nat_add_distrib ring_bytes_add)
qed

lemma length_ring_passes:
  "\<forall>r\<in>set reqs. 0 \<le> snd r \<Longrightarrow> length (ring_passes off reqs) = nat (sum_list (map snd reqs))"
proof (induction reqs arbitrary: off)
  case Nil
  then show ?case by simp
next
  case (Cons r reqs)
  obtain b' len where r: "r = (b', len)" by (cases r)
  have s: "0 \<le> sum_list (map snd reqs)" using Cons.prems by (intro sum_list_nonneg) auto
  show ?case using Cons s by (simp add: r nat_add_distrib length_ring_bytes)
qed

lemma ring_bytes_twice: "ring_bytes b 0 (length b + length b) = b @ b"
proof -
  have "ring_bytes b 0 (length b) = b" by (simp add: ring_bytes_take)
  moreover have "ring_bytes b (length b) (length b) = ring_bytes b (length b mod length b) (length b)"
    by (simp only: ring_bytes_mod)
  ultimately show ?thesis by (simp add: ring_bytes_add)
qed

subsection \<open>The claims\<close>




text \<open>
  C3, as the code has it. For a ring buffer of \<open>N\<close> bytes, \<open>N\<close> a multiple of the width of a
  sample, with the cursor at 0, and every sequence of requests whose lengths are positive
  multiples of the width of a sample and sum to \<open>2N\<close>, the bytes emitted, in order, are two
  passes over the ring: byte number \<open>k\<close> is the byte at offset \<open>k mod N\<close> of the ring as it is
  at the invocation that emits it, there are \<open>2N\<close> of them, and when the ring holds the same
  contents \<open>b\<close> at every invocation they are \<open>b @ b\<close>.
\<close>

theorem C3_two_passes:
  assumes "snd_inited s" and "buffer (dma s) \<noteq> None" and "0 < dmasize s"
    and "0 < samplebits (dma s) sdiv 8" and "ring_ok s"
    and "samplebits (dma s) sdiv 8 dvd dmasize s" and "dmapos s = 0"
    and "\<forall>r\<in>set reqs. int (length (fst r)) = dmasize s \<and> 0 < snd r \<and>
           samplebits (dma s) sdiv 8 dvd snd r"
    and "sum_list (map snd reqs) = 2 * dmasize s"
  shows "\<exists>rs. callback_seq s reqs = Some rs \<and>
           concat (map snd rs) = ring_passes 0 reqs \<and>
           int (length (concat (map snd rs))) = 2 * dmasize s \<and>
           (\<forall>b. (\<forall>r\<in>set reqs. fst r = b) \<longrightarrow> concat (map snd rs) = b @ b)"
proof -
  have nd: "\<not> degraded s" using assms(1-4) by (simp add: degraded_def)
  have st: "dmapos s * (samplebits (dma s) sdiv 8) = int 0 mod dmasize s"
    using assms(7) by simp
  from callback_seq_bytes [OF nd assms(5,8,6) st]
  obtain rs where rs: "callback_seq s reqs = Some rs" "concat (map snd rs) = ring_passes 0 reqs"
    by blast
  have nn: "\<forall>r\<in>set reqs. 0 \<le> snd r" using assms(8) by auto
  have sz: "0 < dmasize s" by fact
  have ln: "int (length (concat (map snd rs))) = 2 * dmasize s"
    using length_ring_passes [OF nn, of 0] assms(9) sz by (simp add: rs(2))
  have tw: "concat (map snd rs) = b @ b" if "\<forall>r\<in>set reqs. fst r = b" for b
  proof -
    from assms(9) sz have "reqs \<noteq> []" by auto
    then obtain r where "r \<in> set reqs" by (cases reqs) auto
    with that assms(8) have lb: "int (length b) = dmasize s" by auto
    have "\<forall>r\<in>set reqs. fst r = b \<and> 0 \<le> snd r" using that nn by simp
    from ring_passes_same [OF this, of 0]
    have "ring_passes 0 reqs = ring_bytes b 0 (nat (2 * dmasize s))" by (simp add: assms(9))
    also have "nat (2 * dmasize s) = length b + length b" using lb by simp
    finally show ?thesis by (simp add: rs(2) ring_bytes_twice)
  qed
  show ?thesis using rs ln tw by blast
qed

theorem C3_two_passes_witness:
  "snd_inited (playing [1, 2, 3, 4] 16) \<and> buffer (dma (playing [1, 2, 3, 4] 16)) \<noteq> None \<and>
   0 < dmasize (playing [1, 2, 3, 4] 16) \<and> 0 < samplebits (dma (playing [1, 2, 3, 4] 16)) sdiv 8 \<and>
   ring_ok (playing [1, 2, 3, 4] 16) \<and> dmapos (playing [1, 2, 3, 4] 16) = 0 \<and>
   (\<exists>rs. callback_seq (playing [1, 2, 3, 4] 16) [([1, 2, 3, 4], 2), ([1, 2, 3, 4], 4), ([1, 2, 3, 4], 2)]
            = Some rs \<and>
      concat (map snd rs) = [1, 2, 3, 4] @ [1, 2, 3, 4])"
proof -
  have p: "snd_inited (playing [1, 2, 3, 4] 16)" "buffer (dma (playing [1, 2, 3, 4] 16)) \<noteq> None"
    "0 < dmasize (playing [1, 2, 3, 4] 16)" "0 < samplebits (dma (playing [1, 2, 3, 4] 16)) sdiv 8"
    by (simp_all add: playing_def initial_state_def signed_divide_int_def)
  have k: "ring_ok (playing [1, 2, 3, 4] 16)"
    by (simp add: ring_ok_def playing_def initial_state_def int_ok_def)
  have d: "samplebits (dma (playing [1, 2, 3, 4] 16)) sdiv 8 dvd dmasize (playing [1, 2, 3, 4] 16)"
    by (simp add: playing_def initial_state_def signed_divide_int_def)
  have z: "dmapos (playing [1, 2, 3, 4] 16) = 0" by (simp add: playing_def initial_state_def)
  have h: "\<forall>r\<in>set [([1, 2, 3, 4], 2), ([1, 2, 3, 4], 4), ([1, 2, 3, 4 :: byte], 2 :: int)].
             int (length (fst r)) = dmasize (playing [1, 2, 3, 4] 16) \<and> 0 < snd r \<and>
             samplebits (dma (playing [1, 2, 3, 4] 16)) sdiv 8 dvd snd r"
    by (simp add: playing_def initial_state_def signed_divide_int_def)
  have t: "sum_list (map snd [([1, 2, 3, 4], 2), ([1, 2, 3, 4], 4), ([1, 2, 3, 4 :: byte], 2 :: int)])
             = 2 * dmasize (playing [1, 2, 3, 4] 16)"
    by (simp add: playing_def initial_state_def)
  have a: "\<forall>r\<in>set [([1, 2, 3, 4], 2), ([1, 2, 3, 4], 4), ([1, 2, 3, 4 :: byte], 2 :: int)].
             fst r = [1, 2, 3, 4]" by simp
  from C3_two_passes [OF p k d z h t]
  obtain rs where r: "callback_seq (playing [1, 2, 3, 4] 16)
      [([1, 2, 3, 4], 2), ([1, 2, 3, 4], 4), ([1, 2, 3, 4], 2)] = Some rs"
    "\<forall>b. (\<forall>r\<in>set [([1, 2, 3, 4], 2), ([1, 2, 3, 4], 4), ([1, 2, 3, 4 :: byte], 2 :: int)].
             fst r = b) \<longrightarrow> concat (map snd rs) = b @ b"
    by (elim exE conjE)
  from r(2) [rule_format, OF a [rule_format]] have "concat (map snd rs) = [1, 2, 3, 4] @ [1, 2, 3, 4]" .
  then show ?thesis using p k z r(1) by (intro conjI exI [of _ rs])
qed

theorem C3_counterexample:
  "map_option (\<lambda>rs. concat (map snd rs))
     (callback_seq (playing [1, 2, 3, 4] 16) [([1, 2, 3, 4], 3), ([1, 2, 3, 4], 3), ([1, 2, 3, 4], 2)])
     = Some [1, 2, 3, 3, 4, 1, 1, 2] \<and>
   [1, 2, 3, 3, 4, 1, 1, 2] \<noteq> [1, 2, 3, 4] @ [1, 2, 3, 4 :: byte] \<and>
   sum_list [3, 3, 2] = 2 * dmasize (playing [1, 2, 3, 4] 16) \<and>
   map_option (\<lambda>rs. concat (map snd rs))
     (callback_seq (playing [1, 2, 3] 16) [([1, 2, 3], 2), ([1, 2, 3], 4)])
     = Some [1, 2, 3, 3, 3, 3] \<and>
   [1, 2, 3, 3, 3, 3] \<noteq> [1, 2, 3] @ [1, 2, 3 :: byte] \<and>
   sum_list [2, 4] = 2 * dmasize (playing [1, 2, 3] 16)"
proof -
  have "map_option (\<lambda>rs. concat (map snd rs))
     (callback_seq (playing [1, 2, 3, 4] 16) [([1, 2, 3, 4], 3), ([1, 2, 3, 4], 3), ([1, 2, 3, 4], 2)])
     = Some [1, 2, 3, 3, 4, 1, 1, 2]"
    by code_simp
  moreover have "map_option (\<lambda>rs. concat (map snd rs))
     (callback_seq (playing [1, 2, 3] 16) [([1, 2, 3], 2), ([1, 2, 3], 4)])
     = Some [1, 2, 3, 3, 3, 3]"
    by code_simp
  ultimately show ?thesis by (simp add: playing_def initial_state_def)
qed

section \<open>Initialisation and shutdown\<close>

subsection \<open>Lemmas\<close>

lemma map_of_filter_other:
  "c \<noteq> h \<Longrightarrow> map_of (filter (\<lambda>e. fst e \<noteq> h) xs) c = map_of xs c"
  by (induction xs) auto

lemma map_of_filter_same: "map_of (filter (\<lambda>e. fst e \<noteq> h) xs) h = None"
  by (induction xs) auto

lemma destroy_open:
  "map_of (streams l) h \<noteq> None \<Longrightarrow>
   SDL_DestroyAudioStream h l = Some (l\<lparr>streams := filter (\<lambda>e. fst e \<noteq> h) (streams l)\<rparr>)"
  by (auto simp: SDL_DestroyAudioStream_def)


lemma Com_Printf_fields [simp]:
  "snd_inited (Com_Printf fmt args s) = snd_inited s"
  "cvars (Com_Printf fmt args s) = cvars s"
  "s_sdlCapture (Com_Printf fmt args s) = s_sdlCapture s"
  "dmapos (Com_Printf fmt args s) = dmapos s"
  "dmasize (Com_Printf fmt args s) = dmasize s"
  "sdlPlaybackStream (Com_Printf fmt args s) = sdlPlaybackStream s"
  "sdlPlaybackDevice (Com_Printf fmt args s) = sdlPlaybackDevice s"
  "sdlCaptureStream (Com_Printf fmt args s) = sdlCaptureStream s"
  "sdlCaptureDevice (Com_Printf fmt args s) = sdlCaptureDevice s"
  "sdlMasterGain (Com_Printf fmt args s) = sdlMasterGain s"
  "dma (Com_Printf fmt args s) = dma s"
  "sdl (Com_Printf fmt args s) = sdl s"
  by (simp_all add: Com_Printf_def)

lemma Com_DPrintf_fields [simp]:
  "snd_inited (Com_DPrintf fmt args s) = snd_inited s"
  "cvars (Com_DPrintf fmt args s) = cvars s"
  "s_sdlCapture (Com_DPrintf fmt args s) = s_sdlCapture s"
  "dmapos (Com_DPrintf fmt args s) = dmapos s"
  "dmasize (Com_DPrintf fmt args s) = dmasize s"
  "sdlPlaybackStream (Com_DPrintf fmt args s) = sdlPlaybackStream s"
  "sdlPlaybackDevice (Com_DPrintf fmt args s) = sdlPlaybackDevice s"
  "sdlCaptureStream (Com_DPrintf fmt args s) = sdlCaptureStream s"
  "sdlCaptureDevice (Com_DPrintf fmt args s) = sdlCaptureDevice s"
  "sdlMasterGain (Com_DPrintf fmt args s) = sdlMasterGain s"
  "dma (Com_DPrintf fmt args s) = dma s"
  "sdl (Com_DPrintf fmt args s) = sdl s"
  by (simp_all add: Com_DPrintf_def)

lemma SNDDMA_PrintAudiospec_fields [simp]:
  "snd_inited (SNDDMA_PrintAudiospec str spec n s) = snd_inited s"
  "cvars (SNDDMA_PrintAudiospec str spec n s) = cvars s"
  "s_sdlCapture (SNDDMA_PrintAudiospec str spec n s) = s_sdlCapture s"
  "dmapos (SNDDMA_PrintAudiospec str spec n s) = dmapos s"
  "dmasize (SNDDMA_PrintAudiospec str spec n s) = dmasize s"
  "sdlPlaybackStream (SNDDMA_PrintAudiospec str spec n s) = sdlPlaybackStream s"
  "sdlPlaybackDevice (SNDDMA_PrintAudiospec str spec n s) = sdlPlaybackDevice s"
  "sdlCaptureStream (SNDDMA_PrintAudiospec str spec n s) = sdlCaptureStream s"
  "sdlCaptureDevice (SNDDMA_PrintAudiospec str spec n s) = sdlCaptureDevice s"
  "sdlMasterGain (SNDDMA_PrintAudiospec str spec n s) = sdlMasterGain s"
  "dma (SNDDMA_PrintAudiospec str spec n s) = dma s"
  "sdl (SNDDMA_PrintAudiospec str spec n s) = sdl s"
  by (simp_all add: SNDDMA_PrintAudiospec_def Let_def split: option.split)


lemma init_unwind_open:
  assumes "init_unwind h s = Some (s', r)"
  shows "\<not> r \<and> s' = s\<lparr>sdlPlaybackStream := None, sdlPlaybackDevice := 0,
            sdl := SDL_QuitSubSystem ((sdl s)\<lparr>streams := filter (\<lambda>e. fst e \<noteq> h) (streams (sdl s))\<rparr>)\<rparr>"
  using assms
  by (auto simp: init_unwind_def SDL_DestroyAudioStream_def split: Option.bind_splits option.splits)

lemma with_stream_streams:
  "with_stream h f l = Some l' \<Longrightarrow> audio_refs l' = audio_refs l \<and> next_stream l' = next_stream l"
  by (auto simp: with_stream_def split: option.splits)

lemma init_capture_frame:
  assumes "init_capture env s = Some s'"
  shows "dma s' = dma s \<and> dmapos s' = dmapos s \<and> dmasize s' = dmasize s \<and>
         snd_inited s' = snd_inited s \<and> sdlPlaybackStream s' = sdlPlaybackStream s"
  using assms
  by (auto simp: init_capture_def Let_def SDL_OpenAudioDeviceStream_def
      split: if_splits option.splits Option.bind_splits)

lemma init_start_frame:
  assumes "init_start s = Some (s', r)"
  shows "r \<and> snd_inited s' \<and> dma s' = dma s \<and> dmapos s' = dmapos s \<and> dmasize s' = dmasize s"
  using assms
  by (auto simp: init_start_def Let_def split: option.splits Option.bind_splits)

lemma SNDDMA_Init_ring:
  assumes "SNDDMA_Init env s = Some (s', True)" and "\<not> snd_inited s"
  shows "snd_inited s' \<and> dmapos s' = 0 \<and>
         dmasize s' = samples (dma s') * (samplebits (dma s') sdiv 8) \<and>
         buffer (dma s') = Some (replicate (nat (dmasize s')) 0) \<and>
         0 \<le> dmasize s' \<and> int_ok (dmasize s') \<and>
         mix_samples (s_sdlMixSamps (case cvars s of None \<Rightarrow> env_cvars env | Some c \<Rightarrow> c))
           (env_obtainedSamples env) (spec_channels (env_obtained env)) = Some (samples (dma s'))"
  using assms
  apply (simp add: SNDDMA_Init_def Let_def SDL_Init_def SDL_OpenAudioDeviceStream_def
      split: if_splits Option.bind_splits)
   apply (auto simp: calloc_def c_int_def split: if_splits Option.bind_splits
      dest!: init_unwind_open init_start_frame init_capture_frame)
  done

lemma SNDDMA_Init_ring_ready:
  assumes "SNDDMA_Init env s = Some (s', True)" and "\<not> snd_inited s"
    and "0 < dmasize s'" and "0 < samplebits (dma s') sdiv 8"
  shows "ring_ready s'"
  using SNDDMA_Init_ring [OF assms(1,2)] assms(3,4)
  by (simp add: ring_ready_def degraded_def ring_ok_def int_ok_def)

subsection \<open>The claims\<close>




text \<open>
  C8. From every state in which the handles held are open streams, and two streams when both
  are held, \<^verbatim>\<open>SNDDMA_Shutdown\<close> returns, and so does a second call right after it; after each
  of the two calls the cursor and the size are 0, the buffer and the two streams are null and
  the system is not initialised. The device id of a stream is 0 after both calls when the
  stream was held, or the id was 0 before. The state at program start is such a state.
\<close>

theorem C8_shutdown_idempotent:
  assumes "handles_ok s"
  shows "\<exists>s1 s2. SNDDMA_Shutdown s = Some s1 \<and> SNDDMA_Shutdown s1 = Some s2 \<and>
           (dmapos s1 = 0 \<and> dmasize s1 = 0 \<and> buffer (dma s1) = None \<and>
            sdlPlaybackStream s1 = None \<and> sdlCaptureStream s1 = None \<and> \<not> snd_inited s1) \<and>
           (dmapos s2 = 0 \<and> dmasize s2 = 0 \<and> buffer (dma s2) = None \<and>
            sdlPlaybackStream s2 = None \<and> sdlCaptureStream s2 = None \<and> \<not> snd_inited s2) \<and>
           (sdlPlaybackStream s \<noteq> None \<or> sdlPlaybackDevice s = 0 \<longrightarrow>
              sdlPlaybackDevice s1 = 0 \<and> sdlPlaybackDevice s2 = 0) \<and>
           (sdlCaptureStream s \<noteq> None \<or> sdlCaptureDevice s = 0 \<longrightarrow>
              sdlCaptureDevice s1 = 0 \<and> sdlCaptureDevice s2 = 0)"
proof -
  define P where "P = (\<lambda>s1::snd_state. dmapos s1 = 0 \<and> dmasize s1 = 0 \<and> buffer (dma s1) = None \<and>
            sdlPlaybackStream s1 = None \<and> sdlCaptureStream s1 = None \<and> \<not> snd_inited s1)"
  define D where "D = (\<lambda>s1::snd_state.
            (sdlPlaybackStream s \<noteq> None \<or> sdlPlaybackDevice s = 0 \<longrightarrow> sdlPlaybackDevice s1 = 0) \<and>
            (sdlCaptureStream s \<noteq> None \<or> sdlCaptureDevice s = 0 \<longrightarrow> sdlCaptureDevice s1 = 0))"
  have again: "\<exists>s2. SNDDMA_Shutdown s1 = Some s2 \<and> P s2 \<and> D s2" if "P s1" "D s1" for s1
    using that by (simp add: P_def D_def SNDDMA_Shutdown_def Com_Printf_def)
  have first: "\<exists>s1. SNDDMA_Shutdown s = Some s1 \<and> P s1 \<and> D s1"
  proof (cases "sdlPlaybackStream s")
    case None
    show ?thesis
    proof (cases "sdlCaptureStream s")
      case N: None
      show ?thesis using None N
        by (simp add: P_def D_def SNDDMA_Shutdown_def Com_Printf_def)
    next
      case (Some c)
      then have "map_of (streams (sdl s)) c \<noteq> None" using assms by (simp add: handles_ok_def)
      from destroy_open [OF this] show ?thesis using None Some
        by (simp add: P_def D_def SNDDMA_Shutdown_def Com_Printf_def)
    qed
  next
    case (Some h)
    then have h: "map_of (streams (sdl s)) h \<noteq> None" using assms by (simp add: handles_ok_def)
    show ?thesis
    proof (cases "sdlCaptureStream s")
      case None
      from destroy_open [OF h] show ?thesis using None Some
        by (simp add: P_def D_def SNDDMA_Shutdown_def Com_Printf_def)
    next
      case C: (Some c)
      then have c: "map_of (streams (sdl s)) c \<noteq> None" "c \<noteq> h"
        using assms Some by (auto simp: handles_ok_def)
      have "map_of (streams (sdl s\<lparr>streams := filter (\<lambda>e. fst e \<noteq> h) (streams (sdl s))\<rparr>)) c \<noteq> None"
        using c by (simp add: map_of_filter_other)
      from destroy_open [OF h] destroy_open [OF this] show ?thesis using C Some
        by (simp add: P_def D_def SNDDMA_Shutdown_def Com_Printf_def)
    qed
  qed
  then obtain s1 where s1: "SNDDMA_Shutdown s = Some s1" "P s1" "D s1" by blast
  from again [OF s1(2,3)] obtain s2 where s2: "SNDDMA_Shutdown s1 = Some s2" "P s2" "D s2" by blast
  have "SNDDMA_Shutdown s = Some s1 \<and> SNDDMA_Shutdown s1 = Some s2 \<and> P s1 \<and> P s2 \<and> D s1 \<and> D s2"
    using s1 s2 by simp
  then show ?thesis unfolding P_def D_def by (intro exI [of _ s1] exI [of _ s2]) blast
qed

theorem C8_shutdown_idempotent_witness:
  "handles_ok initial_state \<and>
   (\<exists>s1 s2. SNDDMA_Shutdown initial_state = Some s1 \<and> SNDDMA_Shutdown s1 = Some s2 \<and>
      dmapos s2 = 0 \<and> dmasize s2 = 0 \<and> buffer (dma s2) = None \<and> sdlPlaybackStream s2 = None \<and>
      sdlCaptureStream s2 = None \<and> \<not> snd_inited s2)"
proof -
  have h: "handles_ok initial_state" by (simp add: handles_ok_def initial_state_def)
  from C8_shutdown_idempotent [OF h] show ?thesis using h by blast
qed




section \<open>Capture\<close>

lemma store_ok:
  "off + length xs \<le> length d \<Longrightarrow>
   store d (int off) xs = Some (take off d @ xs @ drop (off + length xs) d)"
  by (simp add: store_def)

lemma capture_none:
  assumes "sdlCaptureStream s = None" "0 \<le> n" "int_ok (n * 2)" "n * 2 \<le> int (length data)"
  shows "SNDDMA_Capture s fails queued n data =
           Some (replicate (nat (n * 2)) 0 @ drop (nat (n * 2)) data, queued)"
  using assms by (simp add: SNDDMA_Capture_def c_int_def SDL_memset_def store_def)

lemma capture_some:
  assumes "sdlCaptureStream s = Some h" "0 \<le> n" "int_ok (n * 2)" "n * 2 \<le> int (length data)"
  shows "SNDDMA_Capture s fails queued n data =
           Some ((if fails then [] else take (nat (n * 2)) queued) @
                 replicate (nat (n * 2) - (if fails then 0 else length queued)) 0 @
                 drop (nat (n * 2)) data,
                 if fails then queued else drop (nat (n * 2)) queued)"
proof (cases "fails")
  case True
  then show ?thesis using assms
    by (simp add: SNDDMA_Capture_def c_int_def SDL_GetAudioStreamData_def SDL_memset_def store_def)
next
  case False
  define m where "m = nat (n * 2)"
  have m: "n * 2 = int m" "m \<le> length data" using assms by (simp_all add: m_def)
  show ?thesis
  proof (cases "m \<le> length queued")
    case True
    then show ?thesis using False assms(1,3) m
      by (simp add: SNDDMA_Capture_def c_int_def SDL_GetAudioStreamData_def SDL_memset_def store_def
          min_def)
  next
    case F: False
    then have "length queued < m" by simp
    then show ?thesis using False assms(1,3) m
      by (simp add: SNDDMA_Capture_def c_int_def SDL_GetAudioStreamData_def SDL_memset_def store_def
          min_def nat_diff_distrib' drop_take add.commute)
  qed
qed

text \<open>
  C10. \<^verbatim>\<open>SNDDMA_AvailableCaptureSamples\<close> returns half the byte count the audio library
  reports when there is a capture stream and that count is positive, and 0 otherwise; the
  result is never negative and the state is the state of before.
\<close>

theorem C10_available_capture_samples:
  "snd (SNDDMA_AvailableCaptureSamples s available) =
     (if sdlCaptureStream s \<noteq> None \<and> 0 < available then available div 2 else 0) \<and>
   0 \<le> snd (SNDDMA_AvailableCaptureSamples s available) \<and>
   fst (SNDDMA_AvailableCaptureSamples s available) = s"
  by (cases "sdlCaptureStream s")
    (simp_all add: SNDDMA_AvailableCaptureSamples_def Let_def sdiv_nonneg pos_imp_zdiv_nonneg_iff)

text \<open>
  C6. For every \<open>count \<ge> 0\<close> whose double fits an \<^verbatim>\<open>int\<close> and the caller's block, \<^verbatim>\<open>SNDDMA_Capture\<close>
  returns and has written exactly the first \<open>2 * count\<close> bytes of the block: all of them zero
  when there is no capture stream (or the library fails), and otherwise the bytes the stream
  held followed by zero bytes; when the stream held \<open>k < count\<close> samples, its \<open>2 * k\<close> bytes are
  followed by \<open>2 * (count - k)\<close> zero bytes.
\<close>

theorem C6_capture:
  assumes "0 \<le> count" and "int_ok (count * 2)" and "count * 2 \<le> int (length data)"
  shows "\<exists>data' rest. SNDDMA_Capture s fails queued count data = Some (data', rest) \<and>
           length data' = length data \<and>
           drop (nat (count * 2)) data' = drop (nat (count * 2)) data \<and>
           take (nat (count * 2)) data' =
             (if sdlCaptureStream s = None \<or> fails then replicate (nat (count * 2)) 0
              else take (nat (count * 2)) queued @ replicate (nat (count * 2) - length queued) 0) \<and>
           (\<forall>k. sdlCaptureStream s \<noteq> None \<and> \<not> fails \<and> length queued = 2 * k \<and> int k < count \<longrightarrow>
              take (nat (count * 2)) data' = queued @ replicate (2 * (nat count - k)) 0)"
proof (cases "sdlCaptureStream s")
  case None
  show ?thesis
    using assms by (simp add: capture_none [OF None assms] None)
next
  case (Some h)
  define m where "m = nat (count * 2)"
  have m: "m \<le> length data" "m = 2 * nat count" using assms by (simp_all add: m_def)
  show ?thesis
    unfolding capture_some [OF Some assms] m_def [symmetric]
    using m by (auto simp: Some min_def)
qed

theorem C6_capture_witness:
  "(0::int) \<le> 2 \<and> int_ok (2 * 2) \<and> 2 * 2 \<le> int (length [9, 9, 9, 9, 9 :: byte]) \<and>
   (\<exists>data' rest.
      SNDDMA_Capture (initial_state\<lparr>sdlCaptureStream := Some 2\<rparr>) False [1, 2] 2 [9, 9, 9, 9, 9]
        = Some (data', rest) \<and>
      take 4 data' = [1, 2, 0, 0] \<and> drop 4 data' = [9])"
proof -
  have h: "(0::int) \<le> 2" "int_ok (2 * 2)" "2 * 2 \<le> int (length [9, 9, 9, 9, 9 :: byte])"
    by (simp_all add: int_ok_def)
  from C6_capture [OF h, of "initial_state\<lparr>sdlCaptureStream := Some 2\<rparr>" False "[1, 2]"]
  obtain data' rest where
    "SNDDMA_Capture (initial_state\<lparr>sdlCaptureStream := Some 2\<rparr>) False [1, 2] 2 [9, 9, 9, 9, 9]
        = Some (data', rest)"
    "drop (nat (2 * 2)) data' = drop (nat (2 * 2)) [9, 9, 9, 9, 9]"
    "take (nat (2 * 2)) data' = take (nat (2 * 2)) [1, 2] @ replicate (nat (2 * 2) - length [1, 2 :: byte]) 0"
    by auto
  then show ?thesis using h by (simp add: numeral_2_eq_2)
qed

end
